theory Spec2Isabelle
  imports Complex_Main "HOL-Library.Multiset" "HOL-Library.Sublist" "HOL-Library.AList"
    "HOL-Library.Log_Nat" "HOL-Library.Word"
begin

section \<open>Values held by the program\<close>

text \<open>
  A JavaScript String is a sequence of 16-bit code units. \<open>ascii\<close> gives the String of
  a text whose characters are below 256, one code unit for each character.
\<close>

type_synonym code_unit = "16 word"

type_synonym js_string = "code_unit list"

definition ascii :: "string \<Rightarrow> js_string" where
  "ascii s = map (\<lambda>c. of_nat (of_char c)) s"

text \<open>
  A JavaScript Number is an IEEE 754 binary64 value, held here as its 64 bits: the sign
  bit, the 11 bits of the biased exponent and the 52 bits of the trailing significand.
  The biased exponent 2047 marks the infinities (trailing significand 0) and the
  \<open>NaN\<close>s (any other trailing significand); every other bit pattern is a finite number,
  the two zeros among them.
\<close>

type_synonym binary64 = "64 word"

definition sign_bit :: "binary64 \<Rightarrow> bool" where
  "sign_bit x = (2 ^ 63 \<le> unat x)"

definition biased_exponent :: "binary64 \<Rightarrow> nat" where
  "biased_exponent x = unat x div 2 ^ 52 mod 2048"

definition trailing_significand :: "binary64 \<Rightarrow> nat" where
  "trailing_significand x = unat x mod 2 ^ 52"

definition binary64_of :: "bool \<Rightarrow> nat \<Rightarrow> nat \<Rightarrow> binary64" where
  "binary64_of s e f = of_nat ((if s then 2 ^ 63 else 0) + e * 2 ^ 52 + f)"


definition negative_zero :: binary64 where
  "negative_zero = 0x8000000000000000"

definition isFinite :: "binary64 \<Rightarrow> bool" where
  "isFinite x = (biased_exponent x < 2047)"

text \<open>
  The values a warehouse row can hold. An object is the list of its own properties in
  the order the engine enumerates them.
\<close>

datatype jsvalue =
    JNull
  | JBool bool
  | JNum binary64
  | JStr js_string
  | JArr "jsvalue list"
  | JObj "(js_string \<times> jsvalue) list"

type_synonym row = "(js_string \<times> jsvalue) list"

datatype js_error = Error string

section \<open>The value of a Number and the Number of a value\<close>

text \<open>
  The magnitude of the finite Number with biased exponent \<open>e\<close> and trailing significand
  \<open>f\<close>: \<open>f * 2^-1074\<close> for a subnormal (\<open>e = 0\<close>), \<open>(2^52 + f) * 2^(e - 1075)\<close> otherwise.
\<close>

definition significand :: "nat \<Rightarrow> nat \<Rightarrow> nat" where
  "significand e f = (if e = 0 then f else 2 ^ 52 + f)"

definition magnitude :: "nat \<Rightarrow> nat \<Rightarrow> rat" where
  "magnitude e f = of_nat (significand e f) * 2 powi (int (max e 1) - 1075)"

text \<open>
  \<open>ilog b r\<close> is the integer \<open>n\<close> with \<open>b^n \<le> r < b^(n + 1)\<close>, for a positive \<open>r\<close>.
\<close>

definition ilog :: "nat \<Rightarrow> rat \<Rightarrow> int" where
  "ilog b r =
     (if 1 \<le> r then int (floorlog b (nat \<lfloor>r\<rfloor>)) - 1
      else - int (floorlog b (nat (\<lceil>1 / r\<rceil> - 1))))"

text \<open>Rounding to the nearest integer, a tie going to the even one.\<close>

definition round_half_even :: "rat \<Rightarrow> int" where
  "round_half_even q =
     (let fl = \<lfloor>q\<rfloor>; d = q - of_int fl
      in if d < 1 / 2 then fl else if 1 / 2 < d then fl + 1 else if even fl then fl else fl + 1)"

text \<open>
  The Number value of a real number that is not negative (round to nearest, ties to
  even): the exponent and the trailing significand of the nearest double, \<open>Zero\<close> when
  it rounds to zero, \<open>Overflow\<close> when it is \<open>2^1024 - 2^970\<close> or more, which rounds to
  infinity.
\<close>

datatype rounded = Zero | Fields nat nat | Overflow

definition round_binary64 :: "rat \<Rightarrow> rounded" where
  "round_binary64 r =
     (if r \<le> 0 then Zero
      else
        (let e = max (ilog 2 r - 52) (- 1074);
             m = nat (round_half_even (r / 2 powi e));
             e' = (if m = 2 ^ 53 then e + 1 else e);
             m' = (if m = 2 ^ 53 then 2 ^ 52 else m)
         in if 971 < e' then Overflow
            else if m' = 0 then Zero
            else if m' < 2 ^ 52 then Fields 0 m'
            else Fields (nat (e' + 1075)) (m' - 2 ^ 52)))"

section \<open>JSON.stringify\<close>

definition hex_digit :: "nat \<Rightarrow> code_unit" where
  "hex_digit d = (if d mod 16 < 10 then of_nat (48 + d mod 16) else of_nat (87 + d mod 16))"

text \<open>\<open>UnicodeEscape\<close>: a backslash, \<open>u\<close> and four lower-case hexadecimal digits.\<close>

definition UnicodeEscape :: "code_unit \<Rightarrow> js_string" where
  "UnicodeEscape c =
     (let n = unat c
      in [0x5C, 0x75, hex_digit (n div 4096), hex_digit (n div 256), hex_digit (n div 16), hex_digit n])"

definition is_leading_surrogate :: "code_unit \<Rightarrow> bool" where
  "is_leading_surrogate c = (0xD800 \<le> unat c \<and> unat c \<le> 0xDBFF)"

definition is_trailing_surrogate :: "code_unit \<Rightarrow> bool" where
  "is_trailing_surrogate c = (0xDC00 \<le> unat c \<and> unat c \<le> 0xDFFF)"

text \<open>
  One code unit of \<open>QuoteJSONString\<close> that is not a surrogate: backspace (0x08), tab
  (0x09), line feed (0x0A), form feed (0x0C), carriage return (0x0D), the double quote
  (0x22) and the backslash (0x5C) have a two-character escape, every other code unit
  below 0x20 is written as a \<open>UnicodeEscape\<close>, and the rest stands for itself.
\<close>

definition quote_unit :: "code_unit \<Rightarrow> js_string" where
  "quote_unit c =
     (if c = 0x08 then [0x5C, 0x62]
      else if c = 0x09 then [0x5C, 0x74]
      else if c = 0x0A then [0x5C, 0x6E]
      else if c = 0x0C then [0x5C, 0x66]
      else if c = 0x0D then [0x5C, 0x72]
      else if c = 0x22 then [0x5C, 0x22]
      else if c = 0x5C then [0x5C, 0x5C]
      else if unat c < 0x20 then UnicodeEscape c
      else [c])"

text \<open>
  \<open>QuoteJSONString\<close> goes through the code points of the string: a leading surrogate
  followed by a trailing one is a code point above 0xFFFF and stands for itself; a
  surrogate on its own is written as a \<open>UnicodeEscape\<close>.
\<close>

fun quote_units :: "js_string \<Rightarrow> js_string" where
  "quote_units [] = []"
| "quote_units [c] =
     (if is_leading_surrogate c \<or> is_trailing_surrogate c then UnicodeEscape c else quote_unit c)"
| "quote_units (c # d # cs) =
     (if is_leading_surrogate c \<and> is_trailing_surrogate d then c # d # quote_units cs
      else if is_leading_surrogate c \<or> is_trailing_surrogate c then UnicodeEscape c @ quote_units (d # cs)
      else quote_unit c @ quote_units (d # cs))"

definition QuoteJSONString :: "js_string \<Rightarrow> js_string" where
  "QuoteJSONString s = 0x22 # quote_units s @ [0x22]"

subsection \<open>Number::toString\<close>

text \<open>
  \<open>Number::toString\<close> in radix 10 takes integers \<open>n\<close>, \<open>k\<close> and \<open>s\<close> with \<open>k \<ge> 1\<close>,
  \<open>10^(k-1) \<le> s < 10^k\<close>, such that \<open>s * 10^(n-k)\<close> has the Number as its Number value and
  \<open>k\<close> is as small as possible; among several \<open>s\<close> it takes the one whose value is
  closest to the Number, the even one on a tie.

  \<open>rounds_to e f (s, n) k\<close>: the Number value of \<open>s * 10^(n-k)\<close> is the Number with the
  fields \<open>e\<close> and \<open>f\<close>.
\<close>

definition rounds_to :: "nat \<Rightarrow> nat \<Rightarrow> nat \<times> int \<Rightarrow> nat \<Rightarrow> bool" where
  "rounds_to e f sn k =
     (round_binary64 (of_nat (fst sn) * 10 powi (snd sn - int k)) = Fields e f)"

text \<open>
  With \<open>k\<close> digits, the Number lies between \<open>lower * 10^(n-k)\<close> and the next value with
  \<open>k\<close> digits, \<open>upper\<close>, where \<open>10^(n-1) \<le> magnitude < 10^n\<close>. No other value with \<open>k\<close>
  digits is nearer to it.
\<close>

definition decimal_exponent :: "nat \<Rightarrow> nat \<Rightarrow> int" where
  "decimal_exponent e f = ilog 10 (magnitude e f) + 1"

definition scaled :: "nat \<Rightarrow> nat \<Rightarrow> nat \<Rightarrow> rat" where
  "scaled e f k = magnitude e f * 10 powi (int k - decimal_exponent e f)"

definition lower :: "nat \<Rightarrow> nat \<Rightarrow> nat \<Rightarrow> nat" where
  "lower e f k = nat \<lfloor>scaled e f k\<rfloor>"

definition upper :: "nat \<Rightarrow> nat \<Rightarrow> nat \<Rightarrow> nat \<times> int" where
  "upper e f k =
     (if lower e f k + 1 = 10 ^ k then (10 ^ (k - 1), decimal_exponent e f + 1)
      else (lower e f k + 1, decimal_exponent e f))"

definition prefer_lower :: "nat \<Rightarrow> nat \<Rightarrow> nat \<Rightarrow> bool" where
  "prefer_lower e f k =
     (let below = scaled e f k - of_nat (lower e f k);
          above = of_nat (lower e f k) + 1 - scaled e f k
      in below < above \<or> (below = above \<and> even (lower e f k)))"

definition candidate :: "nat \<Rightarrow> nat \<Rightarrow> nat \<Rightarrow> (nat \<times> int) option" where
  "candidate e f k =
     (let down = (lower e f k, decimal_exponent e f); up = upper e f k
      in if rounds_to e f down k then
           (if rounds_to e f up k \<and> \<not> prefer_lower e f k then Some up else Some down)
         else if rounds_to e f up k then Some up
         else None)"

text \<open>
  The least \<open>k\<close>, from the given one upwards, that has a candidate. The first argument
  bounds the search; \<open>exact_digits\<close> is a number of digits that writes the magnitude
  exactly, so the search started with it always ends.
\<close>

fun shortest :: "nat \<Rightarrow> nat \<Rightarrow> nat \<Rightarrow> nat \<Rightarrow> (nat \<times> int \<times> nat) option" where
  "shortest 0 e f k = None"
| "shortest (Suc fuel) e f k =
     (case candidate e f k of
        Some (s, n) \<Rightarrow> Some (s, n, k)
      | None \<Rightarrow> shortest fuel e f (Suc k))"

definition exact_digits :: "nat \<Rightarrow> nat \<Rightarrow> nat" where
  "exact_digits e f = nat (decimal_exponent e f + max 0 (1075 - int (max e 1)))"

definition shortest_digits :: "nat \<Rightarrow> nat \<Rightarrow> (nat \<times> int \<times> nat) option" where
  "shortest_digits e f = shortest (exact_digits e f) e f 1"

definition digit_unit :: "nat \<Rightarrow> code_unit" where
  "digit_unit d = of_nat (48 + d mod 10)"

fun decimal_digits :: "nat \<Rightarrow> js_string" where
  "decimal_digits n =
     (if n < 10 then [digit_unit n] else decimal_digits (n div 10) @ [digit_unit (n mod 10)])"

declare decimal_digits.simps [simp del]

text \<open>
  The text for the digits \<open>s\<close>, their number \<open>k\<close> and the exponent \<open>n\<close>: the digits
  followed by zeros when \<open>k \<le> n \<le> 21\<close>; the digits with a decimal point (0x2E) after
  the first \<open>n\<close> of them when \<open>0 < n \<le> 21\<close>; \<open>0.\<close>, \<open>-n\<close> zeros and the digits when
  \<open>-6 < n \<le> 0\<close>; otherwise the exponent form, with \<open>e\<close> (0x65), the sign (0x2B or 0x2D)
  and the decimal digits of \<open>n - 1\<close>.
\<close>

definition decimal_layout :: "nat \<Rightarrow> int \<Rightarrow> nat \<Rightarrow> js_string" where
  "decimal_layout s n k =
     (let ds = decimal_digits s
      in if int k \<le> n \<and> n \<le> 21 then ds @ replicate (nat n - k) 0x30
         else if 0 < n \<and> n \<le> 21 then take (nat n) ds @ 0x2E # drop (nat n) ds
         else if - 6 < n \<and> n \<le> 0 then 0x30 # 0x2E # replicate (nat (- n)) 0x30 @ ds
         else
           (let e = n - 1;
                ex = 0x65 # (if e < 0 then 0x2D else 0x2B) # decimal_digits (nat \<bar>e\<bar>)
            in if k = 1 then ds @ ex else hd ds # 0x2E # tl ds @ ex))"

text \<open>
  \<open>Number::toString\<close>: \<open>NaN\<close>, \<open>0\<close> for both zeros, a minus sign (0x2D) before the text
  of the magnitude of a negative Number, \<open>Infinity\<close>.
\<close>

definition Number_toString :: "binary64 \<Rightarrow> js_string" where
  "Number_toString x =
     (let e = biased_exponent x; f = trailing_significand x
      in if e = 2047 \<and> f \<noteq> 0 then ascii ''NaN''
         else if e = 0 \<and> f = 0 then ascii ''0''
         else (if sign_bit x then [0x2D] else []) @
              (if e = 2047 then ascii ''Infinity''
               else case shortest_digits e f of
                      Some (s, n, k) \<Rightarrow> decimal_layout s n k
                    | None \<Rightarrow> []))"

subsection \<open>SerializeJSONProperty\<close>

text \<open>
  \<open>SerializeJSONProperty\<close> with no replacer and no gap: a Number that is not finite is
  written \<open>null\<close>; an array is its elements between brackets (0x5B, 0x5D), an object
  its members between braces (0x7B, 0x7D), with a colon (0x3A) after each key,
  separated by commas (0x2C).
\<close>

fun SerializeJSONProperty :: "jsvalue \<Rightarrow> js_string"
  and SerializeJSONArray :: "jsvalue list \<Rightarrow> js_string"
  and SerializeJSONObject :: "(js_string \<times> jsvalue) list \<Rightarrow> js_string" where
  "SerializeJSONProperty JNull = ascii ''null''"
| "SerializeJSONProperty (JBool b) = (if b then ascii ''true'' else ascii ''false'')"
| "SerializeJSONProperty (JNum x) = (if isFinite x then Number_toString x else ascii ''null'')"
| "SerializeJSONProperty (JStr s) = QuoteJSONString s"
| "SerializeJSONProperty (JArr vs) = 0x5B # SerializeJSONArray vs @ [0x5D]"
| "SerializeJSONProperty (JObj ms) = 0x7B # SerializeJSONObject ms @ [0x7D]"
| "SerializeJSONArray [] = []"
| "SerializeJSONArray [v] = SerializeJSONProperty v"
| "SerializeJSONArray (v # w # vs) = SerializeJSONProperty v @ 0x2C # SerializeJSONArray (w # vs)"
| "SerializeJSONObject [] = []"
| "SerializeJSONObject [(k, v)] = QuoteJSONString k @ 0x3A # SerializeJSONProperty v"
| "SerializeJSONObject ((k, v) # m # ms) =
     QuoteJSONString k @ 0x3A # SerializeJSONProperty v @ 0x2C # SerializeJSONObject (m # ms)"

text \<open>\<open>JSON.stringify(rows)\<close>, where \<open>rows\<close> is an array of row objects.\<close>

definition JSON_stringify :: "row list \<Rightarrow> js_string" where
  "JSON_stringify rows = SerializeJSONProperty (JArr (map JObj rows))"

section \<open>JSON.parse\<close>

text \<open>
  The parser of JSON text: white space between tokens, strings with their escapes,
  numbers, the three literals, arrays and objects. It answers \<open>None\<close> on text that is
  not JSON.
\<close>

definition is_ws :: "code_unit \<Rightarrow> bool" where
  "is_ws c = (c = 0x20 \<or> c = 0x09 \<or> c = 0x0A \<or> c = 0x0D)"

definition skip_ws :: "js_string \<Rightarrow> js_string" where
  "skip_ws s = dropWhile is_ws s"

definition is_digit :: "code_unit \<Rightarrow> bool" where
  "is_digit c = (48 \<le> unat c \<and> unat c \<le> 57)"

text \<open>A hexadecimal digit of either case.\<close>

definition hex_value :: "code_unit \<Rightarrow> nat option" where
  "hex_value c =
     (let n = unat c
      in if 48 \<le> n \<and> n \<le> 57 then Some (n - 48)
         else if 97 \<le> n \<and> n \<le> 102 then Some (n - 87)
         else if 65 \<le> n \<and> n \<le> 70 then Some (n - 55)
         else None)"

text \<open>
  The code unit a two-character escape stands for: after the backslash, the double
  quote, the backslash, the solidus, \<open>b\<close>, \<open>f\<close>, \<open>n\<close>, \<open>r\<close> or \<open>t\<close>.
\<close>

definition unescape :: "code_unit \<Rightarrow> code_unit option" where
  "unescape e =
     (if e = 0x22 then Some 0x22
      else if e = 0x5C then Some 0x5C
      else if e = 0x2F then Some 0x2F
      else if e = 0x62 then Some 0x08
      else if e = 0x66 then Some 0x0C
      else if e = 0x6E then Some 0x0A
      else if e = 0x72 then Some 0x0D
      else if e = 0x74 then Some 0x09
      else None)"

text \<open>The code unit that four hexadecimal digits name.\<close>

definition hex4 :: "code_unit \<Rightarrow> code_unit \<Rightarrow> code_unit \<Rightarrow> code_unit \<Rightarrow> code_unit option" where
  "hex4 h1 h2 h3 h4 =
     (case (hex_value h1, hex_value h2, hex_value h3, hex_value h4) of
        (Some a, Some b, Some c, Some d) \<Rightarrow> Some (of_nat (((a * 16 + b) * 16 + c) * 16 + d))
      | _ \<Rightarrow> None)"

definition cons_result :: "'a \<Rightarrow> ('a list \<times> js_string) option \<Rightarrow> ('a list \<times> js_string) option" where
  "cons_result x r = (case r of None \<Rightarrow> None | Some (xs, rest) \<Rightarrow> Some (x # xs, rest))"

text \<open>
  The code units of a string up to its closing quote, and the text after the quote. A
  control character below 0x20 may not stand unescaped; \<open>u\<close> (0x75) after the backslash
  starts a four-digit escape.
\<close>

fun parse_chars :: "js_string \<Rightarrow> (js_string \<times> js_string) option" where
  "parse_chars [] = None"
| "parse_chars (c # cs) =
     (if c = 0x22 then Some ([], cs)
      else if c = 0x5C then
        (case cs of
           [] \<Rightarrow> None
         | e # cs' \<Rightarrow>
             if e = 0x75 then
               (case cs' of
                  h1 # h2 # h3 # h4 # cs'' \<Rightarrow>
                    (case hex4 h1 h2 h3 h4 of
                       None \<Rightarrow> None
                     | Some u \<Rightarrow> cons_result u (parse_chars cs''))
                | _ \<Rightarrow> None)
             else
               (case unescape e of
                  None \<Rightarrow> None
                | Some u \<Rightarrow> cons_result u (parse_chars cs')))
      else if unat c < 0x20 then None
      else cons_result c (parse_chars cs))"

definition digits_value :: "js_string \<Rightarrow> nat" where
  "digits_value ds = foldl (\<lambda>n c. 10 * n + (unat c - 48)) 0 ds"

text \<open>
  A number of the JSON grammar: an optional minus sign; then \<open>0\<close>, or digits that do
  not start with \<open>0\<close>; then an optional fraction, a point and at least one digit; then
  an optional exponent, \<open>e\<close> or \<open>E\<close>, an optional sign and at least one digit.
\<close>

definition parse_int_part :: "js_string \<Rightarrow> (js_string \<times> js_string) option" where
  "parse_int_part s =
     (case s of
        [] \<Rightarrow> None
      | c # cs \<Rightarrow>
          if c = 0x30 then Some ([c], cs)
          else if is_digit c then Some (takeWhile is_digit s, dropWhile is_digit s)
          else None)"

definition parse_fraction :: "js_string \<Rightarrow> (js_string \<times> js_string) option" where
  "parse_fraction s =
     (case s of
        [] \<Rightarrow> Some ([], s)
      | c # cs \<Rightarrow>
          if c = 0x2E then
            (if takeWhile is_digit cs = [] then None
             else Some (takeWhile is_digit cs, dropWhile is_digit cs))
          else Some ([], s))"

definition parse_exponent :: "js_string \<Rightarrow> (int \<times> js_string) option" where
  "parse_exponent s =
     (case s of
        [] \<Rightarrow> Some (0, s)
      | c # cs \<Rightarrow>
          if c = 0x65 \<or> c = 0x45 then
            (let minus = (case cs of [] \<Rightarrow> False | d # ds \<Rightarrow> d = 0x2D);
                 plus = (case cs of [] \<Rightarrow> False | d # ds \<Rightarrow> d = 0x2B);
                 r = (if minus \<or> plus then tl cs else cs)
             in if takeWhile is_digit r = [] then None
                else Some ((if minus then - int (digits_value (takeWhile is_digit r))
                            else int (digits_value (takeWhile is_digit r))),
                           dropWhile is_digit r))
          else Some (0, s))"

text \<open>
  The sign, the digits before and after the point read as one natural number \<open>D\<close>, and
  the power of ten \<open>p\<close> that the exponent and the length of the fraction give them: the
  text denotes \<open>D * 10^p\<close>, negated under a minus sign.
\<close>

definition parse_decimal :: "js_string \<Rightarrow> ((bool \<times> nat \<times> int) \<times> js_string) option" where
  "parse_decimal s =
     (let neg = (case s of [] \<Rightarrow> False | c # cs \<Rightarrow> c = 0x2D);
          s1 = (if neg then tl s else s)
      in case parse_int_part s1 of
           None \<Rightarrow> None
         | Some (ip, s2) \<Rightarrow>
             (case parse_fraction s2 of
                None \<Rightarrow> None
              | Some (fp, s3) \<Rightarrow>
                  (case parse_exponent s3 of
                     None \<Rightarrow> None
                   | Some (ex, s4) \<Rightarrow>
                       Some ((neg, digits_value (ip @ fp), ex - int (length fp)), s4))))"

text \<open>
  The Number value of the text: the double nearest to \<open>D * 10^p\<close>, a zero when it
  rounds to zero, an infinity when it is too large, each with the sign of the text.
\<close>

definition number_value :: "bool \<Rightarrow> nat \<Rightarrow> int \<Rightarrow> binary64" where
  "number_value neg D p =
     (case round_binary64 (of_nat D * 10 powi p) of
        Zero \<Rightarrow> binary64_of neg 0 0
      | Fields e f \<Rightarrow> binary64_of neg e f
      | Overflow \<Rightarrow> binary64_of neg 2047 0)"

definition parse_number :: "js_string \<Rightarrow> (binary64 \<times> js_string) option" where
  "parse_number s =
     (case parse_decimal s of
        None \<Rightarrow> None
      | Some ((neg, D, p), rest) \<Rightarrow> Some (number_value neg D p, rest))"

definition parse_literal :: "js_string \<Rightarrow> jsvalue \<Rightarrow> js_string \<Rightarrow> (jsvalue \<times> js_string) option" where
  "parse_literal lit v s =
     (if take (length lit) s = lit then Some (v, drop (length lit) s) else None)"

text \<open>
  An array index is a canonical numeric string below \<open>2^32 - 1\<close>. The own property
  keys of an object are enumerated with the array indices first, in ascending order,
  then the other keys in the order of their creation.
\<close>

definition array_index :: "js_string \<Rightarrow> nat option" where
  "array_index k =
     (if k \<noteq> [] \<and> list_all is_digit k \<and> (k = [0x30] \<or> hd k \<noteq> 0x30) \<and>
         digits_value k \<le> 4294967294
      then Some (digits_value k) else None)"

fun put_index :: "nat \<Rightarrow> js_string \<Rightarrow> jsvalue \<Rightarrow> (js_string \<times> jsvalue) list \<Rightarrow> (js_string \<times> jsvalue) list" where
  "put_index i k v [] = [(k, v)]"
| "put_index i k v ((k', v') # ms) =
     (case array_index k' of
        Some j \<Rightarrow>
          if j < i then (k', v') # put_index i k v ms
          else if j = i then (k, v) # ms
          else (k, v) # (k', v') # ms
      | None \<Rightarrow> (k, v) # (k', v') # ms)"

text \<open>
  Defining a property on an object: an existing key keeps its place and takes the new
  value; a new array index goes to its place among the indices, any other new key to
  the end.
\<close>

definition CreateDataProperty :: "(js_string \<times> jsvalue) list \<Rightarrow> js_string \<times> jsvalue \<Rightarrow> (js_string \<times> jsvalue) list" where
  "CreateDataProperty obj kv =
     (case array_index (fst kv) of
        Some i \<Rightarrow> put_index i (fst kv) (snd kv) obj
      | None \<Rightarrow> AList.update (fst kv) (snd kv) obj)"

definition object_of_members :: "(js_string \<times> jsvalue) list \<Rightarrow> (js_string \<times> jsvalue) list" where
  "object_of_members ms = foldl CreateDataProperty [] ms"

text \<open>
  The value, the elements of an array after its opening bracket, and the members of an
  object after its opening brace. The first argument bounds the depth of the recursion;
  \<open>JSON_parse\<close> starts it above the length of the text. A value starts with the double
  quote (0x22), a bracket (0x5B), a brace (0x7B), the first letter of a literal (0x6E,
  0x74, 0x66) or else is a number.
\<close>

fun parse_value :: "nat \<Rightarrow> js_string \<Rightarrow> (jsvalue \<times> js_string) option"
  and parse_elements :: "nat \<Rightarrow> js_string \<Rightarrow> (jsvalue list \<times> js_string) option"
  and parse_members :: "nat \<Rightarrow> js_string \<Rightarrow> ((js_string \<times> jsvalue) list \<times> js_string) option" where
  "parse_value 0 s = None"
| "parse_value (Suc n) s =
     (case skip_ws s of
        [] \<Rightarrow> None
      | c # cs \<Rightarrow>
          if c = 0x22 then
            (case parse_chars cs of None \<Rightarrow> None | Some (str, rest) \<Rightarrow> Some (JStr str, rest))
          else if c = 0x5B then
            (case skip_ws cs of
               [] \<Rightarrow> None
             | d # ds \<Rightarrow>
                 if d = 0x5D then Some (JArr [], ds)
                 else (case parse_elements n cs of
                         None \<Rightarrow> None
                       | Some (vs, rest) \<Rightarrow> Some (JArr vs, rest)))
          else if c = 0x7B then
            (case skip_ws cs of
               [] \<Rightarrow> None
             | d # ds \<Rightarrow>
                 if d = 0x7D then Some (JObj [], ds)
                 else (case parse_members n cs of
                         None \<Rightarrow> None
                       | Some (ms, rest) \<Rightarrow> Some (JObj (object_of_members ms), rest)))
          else if c = 0x6E then parse_literal (ascii ''null'') JNull (c # cs)
          else if c = 0x74 then parse_literal (ascii ''true'') (JBool True) (c # cs)
          else if c = 0x66 then parse_literal (ascii ''false'') (JBool False) (c # cs)
          else (case parse_number (c # cs) of
                  None \<Rightarrow> None
                | Some (num, rest) \<Rightarrow> Some (JNum num, rest)))"
| "parse_elements 0 s = None"
| "parse_elements (Suc n) s =
     (case parse_value n s of
        None \<Rightarrow> None
      | Some (v, rest) \<Rightarrow>
          (case skip_ws rest of
             [] \<Rightarrow> None
           | c # cs \<Rightarrow>
               if c = 0x2C then cons_result v (parse_elements n cs)
               else if c = 0x5D then Some ([v], cs)
               else None))"
| "parse_members 0 s = None"
| "parse_members (Suc n) s =
     (case skip_ws s of
        [] \<Rightarrow> None
      | q # s1 \<Rightarrow>
          if q \<noteq> 0x22 then None
          else
            (case parse_chars s1 of
               None \<Rightarrow> None
             | Some (k, s2) \<Rightarrow>
                 (case skip_ws s2 of
                    [] \<Rightarrow> None
                  | c # s3 \<Rightarrow>
                      if c \<noteq> 0x3A then None
                      else
                        (case parse_value n s3 of
                           None \<Rightarrow> None
                         | Some (v, s4) \<Rightarrow>
                             (case skip_ws s4 of
                                [] \<Rightarrow> None
                              | d # s5 \<Rightarrow>
                                  if d = 0x2C then cons_result (k, v) (parse_members n s5)
                                  else if d = 0x7D then Some ([(k, v)], s5)
                                  else None)))))"

text \<open>\<open>JSON.parse(text)\<close> with no reviver: one value, with nothing but white space after it.\<close>

definition JSON_parse :: "js_string \<Rightarrow> jsvalue option" where
  "JSON_parse s =
     (case parse_value (Suc (length s)) s of
        None \<Rightarrow> None
      | Some (v, rest) \<Rightarrow> if skip_ws rest = [] then Some v else None)"

text \<open>
  The order of own property keys: a key differs from every later key, an array index
  stands before every larger one, and no other key stands before an array index.
\<close>

definition key_before :: "js_string \<Rightarrow> js_string \<Rightarrow> bool" where
  "key_before k k' =
     (k \<noteq> k' \<and>
      (case array_index k' of
         None \<Rightarrow> True
       | Some j \<Rightarrow> (case array_index k of None \<Rightarrow> False | Some i \<Rightarrow> i < j)))"

definition own_property_order :: "(js_string \<times> jsvalue) list \<Rightarrow> bool" where
  "own_property_order ms = sorted_wrt key_before (map fst ms)"

text \<open>
  The values JSON text holds as they are: every string, boolean and \<open>null\<close>, every
  finite Number but the negative zero, and the arrays and objects of these, an object
  listing its properties in the order of its own keys.
\<close>

fun json_exact :: "jsvalue \<Rightarrow> bool"
  and json_exact_list :: "jsvalue list \<Rightarrow> bool"
  and json_exact_members :: "(js_string \<times> jsvalue) list \<Rightarrow> bool" where
  "json_exact JNull = True"
| "json_exact (JBool b) = True"
| "json_exact (JNum x) = (isFinite x \<and> x \<noteq> negative_zero)"
| "json_exact (JStr s) = True"
| "json_exact (JArr vs) = json_exact_list vs"
| "json_exact (JObj ms) = (own_property_order ms \<and> json_exact_members ms)"
| "json_exact_list [] = True"
| "json_exact_list (v # vs) = (json_exact v \<and> json_exact_list vs)"
| "json_exact_members [] = True"
| "json_exact_members ((k, v) # ms) = (json_exact v \<and> json_exact_members ms)"

text \<open>What may follow a value inside JSON text: nothing, a comma or a closing bracket.\<close>

definition delimited :: "js_string \<Rightarrow> bool" where
  "delimited rest =
     (case rest of [] \<Rightarrow> True | c # cs \<Rightarrow> c = 0x2C \<or> c = 0x5D \<or> c = 0x7D)"

text \<open>The code units a value can start with.\<close>

definition value_start :: "code_unit \<Rightarrow> bool" where
  "value_start c = (c = 0x22 \<or> c = 0x5B \<or> c = 0x7B \<or> c = 0x6E \<or> c = 0x74
     \<or> c = 0x66 \<or> c = 0x2D \<or> is_digit c)"

section \<open>Configuration\<close>

text \<open>
  \<open>process.env\<close>: a variable that is not set reads as \<open>undefined\<close>, here \<open>None\<close>. The
  variables, the object key, the statement sent to the warehouse and the lines of the
  console are texts that the program only passes on or joins; they are held as lists of
  characters.
\<close>

type_synonym process_env = "string \<rightharpoonup> string"

definition S3_BUCKET :: "process_env \<Rightarrow> string option" where
  "S3_BUCKET env = env ''S3_BUCKET''"

text \<open>The default of the destructuring pattern applies when the property is \<open>undefined\<close>.\<close>

definition S3_KEY_PREFIX :: "process_env \<Rightarrow> string" where
  "S3_KEY_PREFIX env =
     (case env ''S3_KEY_PREFIX'' of None \<Rightarrow> ''click_performance/'' | Some p \<Rightarrow> p)"

definition DYNAMO_TABLE_NAME :: "process_env \<Rightarrow> string option" where
  "DYNAMO_TABLE_NAME env = env ''DYNAMO_TABLE_NAME''"

definition TABLE_NAME :: string where
  "TABLE_NAME = ''SEGMENT_EVENTS.GOOGLE_ADS_CLICK_PARAMETERS.CLICK_PERFORMANCE_REPORTS''"

record connection_options =
  account :: "string option"
  username :: "string option"
  password :: "string option"
  warehouse :: "string option"
  database :: "string option"
  schema :: "string option"

definition snowflake_options :: "process_env \<Rightarrow> connection_options" where
  "snowflake_options env =
     \<lparr>account = env ''SNOWFLAKE_ACCOUNT'', username = env ''SNOWFLAKE_USER'',
      password = env ''SNOWFLAKE_PASSWORD'', warehouse = env ''SNOWFLAKE_WAREHOUSE'',
      database = env ''SNOWFLAKE_DATABASE'', schema = env ''SNOWFLAKE_SCHEMA''\<rparr>"

section \<open>Requests, the services and the trace of a run\<close>

record put_request =
  Item :: row

record write_request =
  PutRequest :: put_request

record batch_write_params =
  RequestItems :: "(string \<times> write_request list) list"

record put_object_params =
  Bucket :: "string option"
  Key :: string
  Body :: js_string

text \<open>
  The services the program talks to. Each field is the outcome the service gives to one
  call: the error handed to the callback or carried by the rejected promise, or none.
  \<open>ddb_batchWrite\<close> sees the requests issued before the current one.
\<close>

record world =
  sf_connect :: "connection_options \<Rightarrow> js_error option"
  sf_execute :: "string \<Rightarrow> js_error + row list"
  s3_putObject :: "put_object_params \<Rightarrow> js_error option"
  ddb_batchWrite :: "batch_write_params list \<Rightarrow> batch_write_params \<Rightarrow> js_error option"

text \<open>
  What a run does, in the order it does it: the functions it enters, the calls it makes
  to the services, the settling of the promise of \<open>fetchAllRows\<close>, what it writes to the
  console, and the exit code it sets.
\<close>

datatype fn = FetchAllRows | DumpToS3 | WriteToDynamoDB

datatype event =
    Invoke fn
  | SfCreateConnection connection_options
  | SfConnect
  | SfExecute string
  | SfDestroy
  | PromiseResolve "row list"
  | PromiseReject js_error
  | S3PutObject put_object_params
  | DdbBatchWrite batch_write_params
  | ConsoleLog string
  | ConsoleError js_error
  | SetExitCode int

section \<open>The program\<close>

text \<open>
  \<open>fetchAllRows\<close>: the promise's executor creates the connection and connects; the
  connect callback rejects on an error and returns, and otherwise executes the query,
  whose \<open>complete\<close> callback destroys the connection and then rejects or resolves.
\<close>

definition fetchAllRows :: "process_env \<Rightarrow> world \<Rightarrow> event list \<times> (js_error + row list)" where
  "fetchAllRows env w =
     (let opts = snowflake_options env; sqlText = ''SELECT * FROM '' @ TABLE_NAME
      in case sf_connect w opts of
           Some err \<Rightarrow>
             ([Invoke FetchAllRows, SfCreateConnection opts, SfConnect, PromiseReject err], Inl err)
         | None \<Rightarrow>
             (case sf_execute w sqlText of
                Inl err \<Rightarrow>
                  ([Invoke FetchAllRows, SfCreateConnection opts, SfConnect, SfExecute sqlText,
                    SfDestroy, PromiseReject err], Inl err)
              | Inr rows \<Rightarrow>
                  ([Invoke FetchAllRows, SfCreateConnection opts, SfConnect, SfExecute sqlText,
                    SfDestroy, PromiseResolve rows], Inr rows)))"

text \<open>
  The first loop of \<open>writeToDynamoDB\<close>: each row is pushed on \<open>current\<close> wrapped in a put
  request, and \<open>current\<close> moves to \<open>batches\<close> when it holds 25 items.
\<close>

fun batch_rows :: "row list \<Rightarrow> write_request list list \<Rightarrow> write_request list
    \<Rightarrow> write_request list list \<times> write_request list" where
  "batch_rows [] batches current = (batches, current)"
| "batch_rows (row # rows) batches current =
     (let current' = current @ [\<lparr>PutRequest = \<lparr>Item = row\<rparr>\<rparr>]
      in if length current' = 25 then batch_rows rows (batches @ [current']) []
         else batch_rows rows batches current')"

text \<open>The batches once the loop is over: a non-empty \<open>current\<close> is the last batch.\<close>

definition make_batches :: "row list \<Rightarrow> write_request list list" where
  "make_batches rows =
     (case batch_rows rows [] [] of
        (batches, current) \<Rightarrow> if length current \<noteq> 0 then batches @ [current] else batches)"

text \<open>A computed property key is converted to a string; \<open>undefined\<close> gives its name.\<close>

definition property_key :: "string option \<Rightarrow> string" where
  "property_key k = (case k of None \<Rightarrow> ''undefined'' | Some s \<Rightarrow> s)"

text \<open>The \<open>params\<close> of one \<open>batchWrite\<close> call: the batch under the table's name.\<close>

definition batchWrite_params :: "process_env \<Rightarrow> write_request list \<Rightarrow> batch_write_params" where
  "batchWrite_params env batch = \<lparr>RequestItems = [(property_key (DYNAMO_TABLE_NAME env), batch)]\<rparr>"

text \<open>
  The second loop: one awaited \<open>batchWrite\<close> per batch. A rejected call throws out of
  the loop; \<open>issued\<close> holds the requests made so far.
\<close>

fun write_batches :: "process_env \<Rightarrow> world \<Rightarrow> batch_write_params list \<Rightarrow> write_request list list
    \<Rightarrow> event list \<times> (js_error + unit)" where
  "write_batches env w issued [] = ([], Inr ())"
| "write_batches env w issued (batch # batches) =
     (let params = batchWrite_params env batch
      in case ddb_batchWrite w issued params of
           Some err \<Rightarrow> ([DdbBatchWrite params], Inl err)
         | None \<Rightarrow>
             (case write_batches env w (issued @ [params]) batches of
                (tr, res) \<Rightarrow> (DdbBatchWrite params # tr, res)))"

definition writeToDynamoDB :: "process_env \<Rightarrow> world \<Rightarrow> row list \<Rightarrow> event list \<times> (js_error + unit)" where
  "writeToDynamoDB env w rows =
     (case write_batches env w [] (make_batches rows) of
        (tr, res) \<Rightarrow> (Invoke WriteToDynamoDB # tr, res))"

definition dumpToS3 :: "process_env \<Rightarrow> world \<Rightarrow> row list \<Rightarrow> string \<Rightarrow> event list \<times> (js_error + unit)" where
  "dumpToS3 env w rows key =
     (let params = \<lparr>Bucket = S3_BUCKET env, Key = key, Body = JSON_stringify rows\<rparr>
      in case s3_putObject w params of
           Some err \<Rightarrow> ([Invoke DumpToS3, S3PutObject params], Inl err)
         | None \<Rightarrow> ([Invoke DumpToS3, S3PutObject params], Inr ()))"

text \<open>The decimal digits of a natural number, as the template literal of the log line writes a length.\<close>

definition digit_char :: "nat \<Rightarrow> char" where
  "digit_char d = char_of (48 + d mod 10)"

fun digits :: "nat \<Rightarrow> string" where
  "digits n = (if n < 10 then [digit_char n] else digits (n div 10) @ [digit_char (n mod 10)])"

declare digits.simps [simp del]

text \<open>The \<open>catch\<close> block of \<open>main\<close>.\<close>

definition main_catch :: "js_error \<Rightarrow> event list" where
  "main_catch err = [ConsoleError err, SetExitCode 1]"

definition main :: "process_env \<Rightarrow> world \<Rightarrow> event list" where
  "main env w =
     (case fetchAllRows env w of
        (t1, Inl err) \<Rightarrow> t1 @ main_catch err
      | (t1, Inr rows) \<Rightarrow>
          (let key = S3_KEY_PREFIX env @ ''initial_load.json''
           in case dumpToS3 env w rows key of
                (t2, Inl err) \<Rightarrow> t1 @ t2 @ main_catch err
              | (t2, Inr u) \<Rightarrow>
                  (case writeToDynamoDB env w rows of
                     (t3, Inl err) \<Rightarrow> t1 @ t2 @ t3 @ main_catch err
                   | (t3, Inr u') \<Rightarrow>
                       t1 @ t2 @ t3 @
                       [ConsoleLog (''Wrote '' @ digits (length rows) @ '' records to S3 and DynamoDB'')])))"

text \<open>
  \<open>process.exitCode\<close> starts out \<open>undefined\<close>, which exits with status 0; the last
  assignment decides the status the process exits with.
\<close>

definition exit_status :: "event list \<Rightarrow> int" where
  "exit_status tr = last (0 # [c. SetExitCode c \<leftarrow> tr])"

section \<open>Reading a trace\<close>

definition ddb_calls :: "event list \<Rightarrow> batch_write_params list" where
  "ddb_calls tr = [p. DdbBatchWrite p \<leftarrow> tr]"

definition s3_calls :: "event list \<Rightarrow> put_object_params list" where
  "s3_calls tr = [p. S3PutObject p \<leftarrow> tr]"

definition log_lines :: "event list \<Rightarrow> string list" where
  "log_lines tr = [s. ConsoleLog s \<leftarrow> tr]"

text \<open>The rows of one batch, and of one call.\<close>

definition batch_items :: "write_request list \<Rightarrow> row list" where
  "batch_items batch = map (\<lambda>r. Item (PutRequest r)) batch"

definition call_items :: "batch_write_params \<Rightarrow> row list" where
  "call_items p = concat (map (\<lambda>tb. batch_items (snd tb)) (RequestItems p))"

text \<open>
  Whether the connection was destroyed before the promise of \<open>fetchAllRows\<close> was
  settled: \<open>SfDestroy\<close> stands among the events before the first resolve or reject.
\<close>

fun is_settle :: "event \<Rightarrow> bool" where
  "is_settle (PromiseResolve rows) = True"
| "is_settle (PromiseReject err) = True"
| "is_settle _ = False"

definition released_before_settled :: "event list \<Rightarrow> bool" where
  "released_before_settled tr = (SfDestroy \<in> set (takeWhile (\<lambda>e. \<not> is_settle e) tr))"

section \<open>Example inputs\<close>

text \<open>
  The Number 3 is \<open>0x4008000000000000\<close> (biased exponent 1024, trailing significand
  \<open>2^51\<close>) and 1.5 is \<open>0x3FF8000000000000\<close> (biased exponent 1023, trailing significand
  \<open>2^51\<close>). \<open>0x20AC\<close> is the euro sign; \<open>0xD83D\<close>, \<open>0xDE00\<close> is a surrogate pair.
\<close>

definition row0 :: row where
  "row0 = [(ascii ''gclid'', JStr (ascii ''a'')), (ascii ''clicks'', JNum 0x4008000000000000)]"



definition row_negative_zero :: row where
  "row_negative_zero = [(ascii ''gclid'', JStr (ascii ''c'')), (ascii ''cost'', JNum negative_zero)]"

definition env0 :: process_env where
  "env0 = map_of [(''S3_BUCKET'', ''archive''), (''DYNAMO_TABLE_NAME'', ''clicks'')]"

definition world_ok :: world where
  "world_ok = \<lparr>sf_connect = (\<lambda>opts. None), sf_execute = (\<lambda>sqlText. Inr [row0, row0]),
     s3_putObject = (\<lambda>params. None), ddb_batchWrite = (\<lambda>issued params. None)\<rparr>"

definition world_connect_fails :: world where
  "world_connect_fails = world_ok\<lparr>sf_connect := (\<lambda>opts. Some (Error ''connect failed''))\<rparr>"

definition world_query_fails :: world where
  "world_query_fails = world_ok\<lparr>sf_execute := (\<lambda>sqlText. Inl (Error ''query failed''))\<rparr>"

definition world_archive_fails :: world where
  "world_archive_fails = world_ok\<lparr>s3_putObject := (\<lambda>params. Some (Error ''access denied''))\<rparr>"

definition world_index_fails :: world where
  "world_index_fails = world_ok\<lparr>ddb_batchWrite := (\<lambda>issued params. Some (Error ''throttled''))\<rparr>"

definition env_empty_prefix :: process_env where
  "env_empty_prefix = map_of [(''S3_BUCKET'', ''archive''), (''S3_KEY_PREFIX'', [])]"

definition world_second_batch_fails :: world where
  "world_second_batch_fails = world_ok\<lparr>ddb_batchWrite :=
     (\<lambda>issued params. if length issued = 1 then Some (Error ''throttled'') else None)\<rparr>"

section \<open>The batches of the index writer\<close>

lemma batch_rows_inv:
  "batch_rows rows batches current = (bs, cur) \<Longrightarrow> length current < 25 \<Longrightarrow>
   \<forall>b \<in> set batches. length b = 25 \<Longrightarrow>
   (\<forall>b \<in> set bs. length b = 25) \<and> length cur < 25 \<and>
   length bs * 25 + length cur = length batches * 25 + length current + length rows"
proof (induction rows arbitrary: batches current)
  case Nil
  then show ?case by simp
next
  case (Cons row rows)
  show ?case
  proof (cases "length current = 24")
    case True
    with Cons.prems have "batch_rows rows (batches @ [current @ [\<lparr>PutRequest = \<lparr>Item = row\<rparr>\<rparr>]]) [] = (bs, cur)"
      by simp
    from Cons.IH[OF this] Cons.prems True show ?thesis by simp
  next
    case False
    with Cons.prems have "batch_rows rows batches (current @ [\<lparr>PutRequest = \<lparr>Item = row\<rparr>\<rparr>]) = (bs, cur)"
      by simp
    from Cons.IH[OF this] Cons.prems False show ?thesis by simp
  qed
qed

lemma batch_rows_wrap:
  "batch_rows rows batches current = (bs, cur) \<Longrightarrow>
   concat bs @ cur = concat batches @ current @ map (\<lambda>row. \<lparr>PutRequest = \<lparr>Item = row\<rparr>\<rparr>) rows"
  by (induction rows arbitrary: batches current) (auto simp: Let_def split: if_splits)

lemma make_batches_concat:
  "concat (make_batches rows) = map (\<lambda>row. \<lparr>PutRequest = \<lparr>Item = row\<rparr>\<rparr>) rows"
proof -
  obtain bs cur where e: "batch_rows rows [] [] = (bs, cur)" by (cases "batch_rows rows [] []")
  from batch_rows_wrap[OF e] show ?thesis by (auto simp add: make_batches_def e)
qed

lemma make_batches_shape:
  obtains bs cur where "batch_rows rows [] [] = (bs, cur)" "\<forall>b \<in> set bs. length b = 25"
    "length cur < 25" "length bs * 25 + length cur = length rows"
    "make_batches rows = (if cur = [] then bs else bs @ [cur])"
proof -
  obtain bs cur where e: "batch_rows rows [] [] = (bs, cur)" by (cases "batch_rows rows [] []")
  from batch_rows_inv[OF e] have "(\<forall>b \<in> set bs. length b = 25) \<and> length cur < 25 \<and>
     length bs * 25 + length cur = length rows" by simp
  moreover have "make_batches rows = (if cur = [] then bs else bs @ [cur])"
    by (simp add: make_batches_def e)
  ultimately show ?thesis using that e by blast
qed

lemma make_batches_length: "length (make_batches rows) = (length rows + 24) div 25"
proof -
  obtain bs cur where h: "length cur < 25" "length bs * 25 + length cur = length rows"
    "make_batches rows = (if cur = [] then bs else bs @ [cur])"
    by (rule make_batches_shape)
  show ?thesis
  proof (cases "cur = []")
    case True
    with h show ?thesis by simp
  next
    case False
    then have "0 < length cur" by simp
    with h have "(length rows + 24) div 25 = length bs + 1" by arith
    with h False show ?thesis by simp
  qed
qed

lemma make_batches_sizes:
  "b \<in> set (make_batches rows) \<Longrightarrow> 1 \<le> length b \<and> length b \<le> 25"
proof -
  assume b: "b \<in> set (make_batches rows)"
  obtain bs cur where h: "\<forall>b \<in> set bs. length b = 25" "length cur < 25"
    "make_batches rows = (if cur = [] then bs else bs @ [cur])"
    by (rule make_batches_shape)
  from b h show ?thesis by (cases "cur = []") (auto simp: Suc_le_eq)
qed

lemma make_batches_full:
  "Suc i < length (make_batches rows) \<Longrightarrow> length (make_batches rows ! i) = 25"
proof -
  assume i: "Suc i < length (make_batches rows)"
  obtain bs cur where h: "\<forall>b \<in> set bs. length b = 25"
    "make_batches rows = (if cur = [] then bs else bs @ [cur])"
    by (rule make_batches_shape)
  from i h have "i < length bs" by (cases "cur = []") auto
  then have "make_batches rows ! i = bs ! i" using h by (simp add: nth_append)
  with h \<open>i < length bs\<close> show ?thesis by simp
qed

lemma write_batches_all:
  "(\<forall>i < length bs. ddb_batchWrite w (issued @ map (batchWrite_params env) (take i bs))
       (batchWrite_params env (bs ! i)) = None) \<Longrightarrow>
   write_batches env w issued bs = (map (\<lambda>b. DdbBatchWrite (batchWrite_params env b)) bs, Inr ())"
proof (induction bs arbitrary: issued)
  case Nil
  then show ?case by simp
next
  case (Cons b bs)
  from Cons.prems have h0: "ddb_batchWrite w issued (batchWrite_params env b) = None"
    by fastforce
  have "\<forall>i < length bs. ddb_batchWrite w ((issued @ [batchWrite_params env b]) @ map (batchWrite_params env) (take i bs))
       (batchWrite_params env (bs ! i)) = None"
  proof (intro allI impI)
    fix i assume "i < length bs"
    then have "Suc i < length (b # bs)" by simp
    from Cons.prems[rule_format, OF this] show "ddb_batchWrite w ((issued @ [batchWrite_params env b]) @ map (batchWrite_params env) (take i bs))
       (batchWrite_params env (bs ! i)) = None" by simp
  qed
  from Cons.IH[OF this] h0 show ?case by simp
qed

lemma write_batches_fail:
  "k < length bs \<Longrightarrow>
   (\<forall>i < k. ddb_batchWrite w (issued @ map (batchWrite_params env) (take i bs))
       (batchWrite_params env (bs ! i)) = None) \<Longrightarrow>
   ddb_batchWrite w (issued @ map (batchWrite_params env) (take k bs))
       (batchWrite_params env (bs ! k)) = Some err \<Longrightarrow>
   write_batches env w issued bs =
     (map (\<lambda>b. DdbBatchWrite (batchWrite_params env b)) (take (Suc k) bs), Inl err)"
proof (induction bs arbitrary: issued k)
  case Nil
  then show ?case by simp
next
  case (Cons b bs)
  show ?case
  proof (cases k)
    case 0
    with Cons.prems show ?thesis by simp
  next
    case (Suc j)
    with Cons.prems have h0: "ddb_batchWrite w issued (batchWrite_params env b) = None"
      by fastforce
    have j: "j < length bs" using Cons.prems Suc by simp
    have a: "\<forall>i < j. ddb_batchWrite w ((issued @ [batchWrite_params env b]) @ map (batchWrite_params env) (take i bs))
       (batchWrite_params env (bs ! i)) = None"
    proof (intro allI impI)
      fix i assume "i < j"
      then have "Suc i < k" using Suc by simp
      from Cons.prems(2)[rule_format, OF this] show "ddb_batchWrite w ((issued @ [batchWrite_params env b]) @ map (batchWrite_params env) (take i bs))
       (batchWrite_params env (bs ! i)) = None" by simp
    qed
    have f: "ddb_batchWrite w ((issued @ [batchWrite_params env b]) @ map (batchWrite_params env) (take j bs))
       (batchWrite_params env (bs ! j)) = Some err"
      using Cons.prems(3) Suc by simp
    from Cons.IH[OF j a f] h0 Suc show ?thesis by simp
  qed
qed

lemma call_items_params: "call_items (batchWrite_params env b) = batch_items b"
  by (simp add: call_items_def batchWrite_params_def)

lemma ddb_calls_map: "ddb_calls (map (\<lambda>b. DdbBatchWrite (f b)) bs) = map f bs"
  by (induction bs) (simp_all add: ddb_calls_def)

lemma write_batches_prefix:
  "\<exists>n. fst (write_batches env w issued bs) = map (\<lambda>b. DdbBatchWrite (batchWrite_params env b)) (take n bs)"
proof (induction bs arbitrary: issued)
  case Nil
  then show ?case by simp
next
  case (Cons b bs)
  show ?case
  proof (cases "ddb_batchWrite w issued (batchWrite_params env b)")
    case (Some err)
    then have "fst (write_batches env w issued (b # bs)) =
        map (\<lambda>b. DdbBatchWrite (batchWrite_params env b)) (take 1 (b # bs))" by simp
    then show ?thesis by blast
  next
    case None
    from Cons.IH[of "issued @ [batchWrite_params env b]"] obtain n where
      n: "fst (write_batches env w (issued @ [batchWrite_params env b]) bs) =
          map (\<lambda>b. DdbBatchWrite (batchWrite_params env b)) (take n bs)" by blast
    from None n have "fst (write_batches env w issued (b # bs)) =
        map (\<lambda>b. DdbBatchWrite (batchWrite_params env b)) (take (Suc n) (b # bs))"
      by (cases "write_batches env w (issued @ [batchWrite_params env b]) bs") (simp add: Let_def)
    then show ?thesis by blast
  qed
qed

lemma writeToDynamoDB_calls_prefix:
  "\<exists>n. ddb_calls (fst (writeToDynamoDB env w rows)) = map (batchWrite_params env) (take n (make_batches rows))"
proof -
  obtain n where n: "fst (write_batches env w [] (make_batches rows)) =
      map (\<lambda>b. DdbBatchWrite (batchWrite_params env b)) (take n (make_batches rows))"
    using write_batches_prefix by blast
  have "ddb_calls (fst (writeToDynamoDB env w rows)) = ddb_calls (fst (write_batches env w [] (make_batches rows)))"
    by (simp add: writeToDynamoDB_def ddb_calls_def split: prod.splits)
  with n show ?thesis by (auto simp: ddb_calls_map)
qed

lemma concat_batch_items: "concat (map batch_items bs) = batch_items (concat bs)"
  by (induction bs) (simp_all add: batch_items_def)

lemma make_batches_items: "concat (map batch_items (make_batches rows)) = rows"
  by (simp add: concat_batch_items make_batches_concat) (simp add: batch_items_def comp_def)

section \<open>Claims about the index writer\<close>

text \<open>
  C1. For every record sequence of length \<open>N\<close>, \<open>writeToDynamoDB\<close> partitions it into
  exactly \<open>ceil(N/25)\<close> batches; every batch holds between 1 and 25 items, so no batch
  is empty; every batch but the last holds exactly 25; and the items of all batches
  together are the records, as a multiset. When the store accepts every call, the
  function returns normally after one \<open>batchWrite\<close> call per batch, in order, each call
  carrying the items of its batch, so that the items of all calls together are the
  records, none twice and none left out.
\<close>

theorem writeToDynamoDB_batching:
  "int (length (make_batches rows)) = \<lceil>real (length rows) / 25\<rceil> \<and>
   (\<forall>b \<in> set (make_batches rows). 1 \<le> length b \<and> length b \<le> 25) \<and>
   (\<forall>i. Suc i < length (make_batches rows) \<longrightarrow> length (make_batches rows ! i) = 25) \<and>
   mset (concat (map batch_items (make_batches rows))) = mset rows \<and>
   ((\<forall>issued params. ddb_batchWrite w issued params = None) \<longrightarrow>
      snd (writeToDynamoDB env w rows) = Inr () \<and>
      ddb_calls (fst (writeToDynamoDB env w rows)) = map (batchWrite_params env) (make_batches rows) \<and>
      map call_items (ddb_calls (fst (writeToDynamoDB env w rows))) = map batch_items (make_batches rows) \<and>
      mset (concat (map call_items (ddb_calls (fst (writeToDynamoDB env w rows))))) = mset rows)"
proof (intro conjI ballI allI impI)
  have "\<lceil>real (length rows) / 25\<rceil> = int ((length rows + 24) div 25)" by linarith
  then show "int (length (make_batches rows)) = \<lceil>real (length rows) / 25\<rceil>"
    by (simp add: make_batches_length)
next
  fix b assume "b \<in> set (make_batches rows)"
  then show "1 \<le> length b" "length b \<le> 25" using make_batches_sizes by blast+
next
  fix i assume "Suc i < length (make_batches rows)"
  then show "length (make_batches rows ! i) = 25" by (rule make_batches_full)
next
  show "mset (concat (map batch_items (make_batches rows))) = mset rows"
    by (simp add: make_batches_items)
next
  assume ok: "\<forall>issued params. ddb_batchWrite w issued params = None"
  then have wb: "write_batches env w [] (make_batches rows) =
      (map (\<lambda>b. DdbBatchWrite (batchWrite_params env b)) (make_batches rows), Inr ())"
    by (intro write_batches_all) simp
  show "snd (writeToDynamoDB env w rows) = Inr ()"
    by (simp add: writeToDynamoDB_def wb)
  show c: "ddb_calls (fst (writeToDynamoDB env w rows)) = map (batchWrite_params env) (make_batches rows)"
    using ddb_calls_map[of "batchWrite_params env" "make_batches rows"]
    by (simp add: writeToDynamoDB_def wb ddb_calls_def)
  show i: "map call_items (ddb_calls (fst (writeToDynamoDB env w rows))) = map batch_items (make_batches rows)"
    by (simp add: c call_items_params comp_def)
  show "mset (concat (map call_items (ddb_calls (fst (writeToDynamoDB env w rows))))) = mset rows"
    by (simp only: i make_batches_items)
qed

theorem writeToDynamoDB_batching_witness:
  "(\<forall>issued params. ddb_batchWrite world_ok issued params = None) \<and>
   int (length (make_batches (replicate 52 row0))) = \<lceil>real (length (replicate 52 row0)) / 25\<rceil> \<and>
   map length (make_batches (replicate 52 row0)) = [25, 25, 2] \<and>
   snd (writeToDynamoDB env0 world_ok (replicate 52 row0)) = Inr () \<and>
   map length (map call_items (ddb_calls (fst (writeToDynamoDB env0 world_ok (replicate 52 row0)))))
     = [25, 25, 2]"
proof -
  have ok: "\<forall>issued params. ddb_batchWrite world_ok issued params = None"
    by (simp add: world_ok_def)
  have l: "map length (make_batches (replicate 52 row0)) = [25, 25, 2]"
    by code_simp
  have m: "map length (map batch_items bs) = map length bs" for bs
    by (simp add: batch_items_def comp_def)
  note t = writeToDynamoDB_batching[of "replicate 52 row0" world_ok env0]
  from t ok have c: "map call_items (ddb_calls (fst (writeToDynamoDB env0 world_ok (replicate 52 row0))))
      = map batch_items (make_batches (replicate 52 row0))" by blast
  from t ok have r: "snd (writeToDynamoDB env0 world_ok (replicate 52 row0)) = Inr ()" by blast
  from t have n: "int (length (make_batches (replicate 52 row0))) = \<lceil>real (length (replicate 52 row0)) / 25\<rceil>"
    by blast
  show ?thesis using ok n l r by (simp only: c m) simp
qed

text \<open>
  C5. If the call for batch \<open>k\<close> (counted from 0) is the first one the store rejects,
  \<open>writeToDynamoDB\<close> throws that error; its trace holds the calls for batches \<open>0..k\<close>,
  once each and in order, and nothing else: the failed call is not repeated, no batch
  after it is sent, and no request undoes the batches already written.
\<close>

theorem writeToDynamoDB_failed_batch:
  assumes "k < length (make_batches rows)"
    and "\<forall>i < k. ddb_batchWrite w (map (batchWrite_params env) (take i (make_batches rows)))
           (batchWrite_params env (make_batches rows ! i)) = None"
    and "ddb_batchWrite w (map (batchWrite_params env) (take k (make_batches rows)))
           (batchWrite_params env (make_batches rows ! k)) = Some err"
  shows "writeToDynamoDB env w rows =
           (Invoke WriteToDynamoDB #
              map (\<lambda>b. DdbBatchWrite (batchWrite_params env b)) (take (Suc k) (make_batches rows)),
            Inl err) \<and>
         ddb_calls (fst (writeToDynamoDB env w rows)) =
           map (batchWrite_params env) (take (Suc k) (make_batches rows))"
proof -
  have "write_batches env w [] (make_batches rows) =
      (map (\<lambda>b. DdbBatchWrite (batchWrite_params env b)) (take (Suc k) (make_batches rows)), Inl err)"
    using assms by (intro write_batches_fail) simp_all
  then have a: "writeToDynamoDB env w rows =
           (Invoke WriteToDynamoDB #
              map (\<lambda>b. DdbBatchWrite (batchWrite_params env b)) (take (Suc k) (make_batches rows)),
            Inl err)"
    by (simp add: writeToDynamoDB_def)
  have "ddb_calls (fst (writeToDynamoDB env w rows)) =
           map (batchWrite_params env) (take (Suc k) (make_batches rows))"
    using ddb_calls_map[of "batchWrite_params env" "take (Suc k) (make_batches rows)"]
    by (simp add: a ddb_calls_def)
  with a show ?thesis by blast
qed

theorem writeToDynamoDB_failed_batch_witness:
  "snd (writeToDynamoDB env0 world_second_batch_fails (replicate 52 row0)) = Inl (Error ''throttled'') \<and>
   length (make_batches (replicate 52 row0)) = 3 \<and>
   ddb_calls (fst (writeToDynamoDB env0 world_second_batch_fails (replicate 52 row0))) =
     map (batchWrite_params env0) (take 2 (make_batches (replicate 52 row0)))"
proof -
  have l: "map length (make_batches (replicate 52 row0)) = [25, 25, 2]"
    by code_simp
  then have n: "length (make_batches (replicate 52 row0)) = 3"
    by (metis length_map list.size(3,4) One_nat_def Suc_1 numeral_3_eq_3 add.commute plus_1_eq_Suc)
  then have k: "1 < length (make_batches (replicate 52 row0))" by simp
  have p: "\<forall>i < 1. ddb_batchWrite world_second_batch_fails
      (map (batchWrite_params env0) (take i (make_batches (replicate 52 row0))))
      (batchWrite_params env0 (make_batches (replicate 52 row0) ! i)) = None"
    by (simp add: world_second_batch_fails_def world_ok_def)
  have f: "ddb_batchWrite world_second_batch_fails
      (map (batchWrite_params env0) (take 1 (make_batches (replicate 52 row0))))
      (batchWrite_params env0 (make_batches (replicate 52 row0) ! 1)) = Some (Error ''throttled'')"
    using k by (simp add: world_second_batch_fails_def world_ok_def)
  note t = writeToDynamoDB_failed_batch[OF k p f]
  from t have r: "snd (writeToDynamoDB env0 world_second_batch_fails (replicate 52 row0)) = Inl (Error ''throttled'')"
    by simp
  from t have c: "ddb_calls (fst (writeToDynamoDB env0 world_second_batch_fails (replicate 52 row0))) =
     map (batchWrite_params env0) (take (Suc 1) (make_batches (replicate 52 row0)))"
    by blast
  have "Suc 1 = 2" by simp
  with r n c show ?thesis by metis
qed


text \<open>
  C8. Every write item is a put request whose item is a row of the input, as it is: the
  batches, concatenated, are the rows each wrapped as \<open>{ PutRequest: { Item: row } }\<close>,
  and whatever the store answers, every item of every call issued is such a wrapping
  of an input row.
\<close>

theorem writeToDynamoDB_items_verbatim:
  "concat (make_batches rows) = map (\<lambda>row. \<lparr>PutRequest = \<lparr>Item = row\<rparr>\<rparr>) rows \<and>
   (\<forall>c \<in> set (ddb_calls (fst (writeToDynamoDB env w rows))).
      \<forall>tb \<in> set (RequestItems c). \<forall>r \<in> set (snd tb).
        \<exists>row \<in> set rows. r = \<lparr>PutRequest = \<lparr>Item = row\<rparr>\<rparr>)"
proof (intro conjI ballI)
  show w: "concat (make_batches rows) = map (\<lambda>row. \<lparr>PutRequest = \<lparr>Item = row\<rparr>\<rparr>) rows"
    by (rule make_batches_concat)
  fix c tb r
  assume c: "c \<in> set (ddb_calls (fst (writeToDynamoDB env w rows)))"
    and tb: "tb \<in> set (RequestItems c)" and r: "r \<in> set (snd tb)"
  obtain n where "ddb_calls (fst (writeToDynamoDB env w rows)) =
      map (batchWrite_params env) (take n (make_batches rows))"
    using writeToDynamoDB_calls_prefix by blast
  with c obtain b where b: "b \<in> set (take n (make_batches rows))" "c = batchWrite_params env b"
    by auto
  from b(2) tb r have "r \<in> set b" by (simp add: batchWrite_params_def)
  moreover from b(1) have "b \<in> set (make_batches rows)" by (rule in_set_takeD)
  ultimately have "r \<in> set (concat (make_batches rows))" by auto
  then show "\<exists>row \<in> set rows. r = \<lparr>PutRequest = \<lparr>Item = row\<rparr>\<rparr>"
    by (auto simp: w)
qed

theorem writeToDynamoDB_items_verbatim_witness:
  "ddb_calls (fst (writeToDynamoDB env0 world_ok [row0])) =
     [\<lparr>RequestItems = [(''clicks'', [\<lparr>PutRequest = \<lparr>Item = row0\<rparr>\<rparr>])]\<rparr>] \<and>
   concat (make_batches [row0]) = [\<lparr>PutRequest = \<lparr>Item = row0\<rparr>\<rparr>] \<and>
   (\<exists>row \<in> set [row0]. \<lparr>PutRequest = \<lparr>Item = row0\<rparr>\<rparr> = \<lparr>PutRequest = \<lparr>Item = row\<rparr>\<rparr>)"
proof -
  have c: "ddb_calls (fst (writeToDynamoDB env0 world_ok [row0])) =
     [\<lparr>RequestItems = [(''clicks'', [\<lparr>PutRequest = \<lparr>Item = row0\<rparr>\<rparr>])]\<rparr>]"
    by (simp add: writeToDynamoDB_def make_batches_def world_ok_def ddb_calls_def
        batchWrite_params_def property_key_def DYNAMO_TABLE_NAME_def env0_def)
  note t = writeToDynamoDB_items_verbatim[of "[row0]" env0 world_ok]
  from t have "concat (make_batches [row0]) = [\<lparr>PutRequest = \<lparr>Item = row0\<rparr>\<rparr>]" by simp
  moreover from t c have "\<exists>row \<in> set [row0]. \<lparr>PutRequest = \<lparr>Item = row0\<rparr>\<rparr> = \<lparr>PutRequest = \<lparr>Item = row\<rparr>\<rparr>"
    by simp
  ultimately show ?thesis using c by blast
qed

text \<open>
  C9. Batching keeps the order: the items of the batches, concatenated in emission
  order, are the input sequence. The items of the calls issued are a prefix of the
  input whatever the store answers, and the whole input when it accepts every call.
\<close>

theorem writeToDynamoDB_order:
  "concat (map batch_items (make_batches rows)) = rows \<and>
   prefix (concat (map call_items (ddb_calls (fst (writeToDynamoDB env w rows))))) rows \<and>
   ((\<forall>issued params. ddb_batchWrite w issued params = None) \<longrightarrow>
      concat (map call_items (ddb_calls (fst (writeToDynamoDB env w rows)))) = rows)"
proof (intro conjI impI)
  show i: "concat (map batch_items (make_batches rows)) = rows"
    by (rule make_batches_items)
  obtain n where n: "ddb_calls (fst (writeToDynamoDB env w rows)) =
      map (batchWrite_params env) (take n (make_batches rows))"
    using writeToDynamoDB_calls_prefix by blast
  have "concat (map call_items (ddb_calls (fst (writeToDynamoDB env w rows)))) =
      concat (map batch_items (take n (make_batches rows)))"
    by (simp add: n call_items_params comp_def)
  moreover have "prefix (concat (map batch_items (take n (make_batches rows))))
      (concat (map batch_items (make_batches rows)))"
    by (metis append_take_drop_id concat_append map_append prefixI)
  ultimately show "prefix (concat (map call_items (ddb_calls (fst (writeToDynamoDB env w rows))))) rows"
    by (simp add: i)
  assume ok: "\<forall>issued params. ddb_batchWrite w issued params = None"
  then have wb: "write_batches env w [] (make_batches rows) =
      (map (\<lambda>b. DdbBatchWrite (batchWrite_params env b)) (make_batches rows), Inr ())"
    by (intro write_batches_all) simp
  have "ddb_calls (fst (writeToDynamoDB env w rows)) = map (batchWrite_params env) (make_batches rows)"
    using ddb_calls_map[of "batchWrite_params env" "make_batches rows"]
    by (simp add: writeToDynamoDB_def wb ddb_calls_def)
  then show "concat (map call_items (ddb_calls (fst (writeToDynamoDB env w rows)))) = rows"
    using i by (simp add: call_items_params comp_def)
qed

theorem writeToDynamoDB_order_witness:
  "(\<forall>issued params. ddb_batchWrite world_ok issued params = None) \<and>
   concat (map call_items (ddb_calls (fst (writeToDynamoDB env0 world_ok (replicate 52 row0)))))
     = replicate 52 row0"
proof -
  have ok: "\<forall>issued params. ddb_batchWrite world_ok issued params = None"
    by (simp add: world_ok_def)
  with writeToDynamoDB_order[of "replicate 52 row0" env0 world_ok] show ?thesis by blast
qed

section \<open>Parsing what JSON.stringify writes\<close>

subsection \<open>The integer logarithm\<close>

lemma ilog_bounds:
  assumes "0 < r" "1 < b"
  shows "of_nat b powi (ilog b r) \<le> r \<and> r < of_nat b powi (ilog b r + 1)"
proof (cases "1 \<le> r")
  case True
  let ?n = "nat \<lfloor>r\<rfloor>"
  from True have n: "0 < ?n" by simp
  let ?L = "floorlog b ?n"
  from floorlog_bounds[OF n assms(2)] have fb: "b ^ (?L - 1) \<le> ?n" "?n < b ^ ?L" by auto
  have L: "0 < ?L" using n assms(2) by (simp add: floorlog_def)
  have i: "ilog b r = int (?L - 1)" using True L by (simp add: ilog_def)
  have nr: "of_nat ?n \<le> r" using True by (simp add: of_nat_nat)
  have "(of_nat b :: rat) ^ (?L - 1) \<le> of_nat ?n"
    using fb(1) by (metis of_nat_le_iff of_nat_power)
  with nr have lo: "(of_nat b :: rat) powi (ilog b r) \<le> r"
    by (simp add: i power_int_of_nat del: of_nat_power)
  have "r < of_int \<lfloor>r\<rfloor> + 1" by linarith
  also have "\<dots> = of_nat (?n + 1)" using True by simp
  also have "\<dots> \<le> of_nat (b ^ ?L)" using fb(2) by (metis Suc_eq_plus1 Suc_leI of_nat_le_iff)
  finally have "r < (of_nat b :: rat) ^ ?L" by simp
  moreover have "ilog b r + 1 = int ?L" using i L by simp
  ultimately have "r < (of_nat b :: rat) powi (ilog b r + 1)"
    by (simp add: power_int_of_nat del: of_nat_power)
  with lo show ?thesis by blast
next
  case False
  let ?y = "1 / r"
  from False assms(1) have y: "1 < ?y" by simp
  let ?n = "nat (\<lceil>?y\<rceil> - 1)"
  from y have c: "2 \<le> \<lceil>?y\<rceil>" by linarith
  then have n: "0 < ?n" by linarith
  let ?L = "floorlog b ?n"
  from floorlog_bounds[OF n assms(2)] have fb: "b ^ (?L - 1) \<le> ?n" "?n < b ^ ?L" by auto
  have L: "0 < ?L" using n assms(2) by (simp add: floorlog_def)
  have i: "ilog b r = - int ?L" using False by (simp add: ilog_def)
  have bpos: "0 < (of_nat b :: rat)" using assms(2) by simp
  from c have "0 \<le> \<lceil>?y\<rceil> - 1" by linarith
  then have ni: "int ?n = \<lceil>?y\<rceil> - 1" by (rule nat_0_le)
  have nr: "(of_nat ?n :: rat) = of_int (\<lceil>?y\<rceil> - 1)"
    by (metis ni of_int_of_nat_eq)
  have "?y \<le> of_int \<lceil>?y\<rceil>" by linarith
  also have "\<dots> = of_nat (?n + 1)" using nr by simp
  also have "\<dots> \<le> of_nat (b ^ ?L)" using fb(2) by (metis Suc_eq_plus1 Suc_leI of_nat_le_iff)
  finally have "?y \<le> (of_nat b :: rat) ^ ?L" by simp
  then have "1 / (of_nat b :: rat) ^ ?L \<le> r"
    using assms(1) bpos by (simp add: field_simps)
  then have lo: "(of_nat b :: rat) powi (ilog b r) \<le> r"
    by (simp add: i power_int_minus_divide power_int_of_nat del: of_nat_power)
  have "(of_nat b :: rat) ^ (?L - 1) \<le> of_nat ?n"
    using fb(1) by (metis of_nat_le_iff of_nat_power)
  also have "(of_nat ?n :: rat) = of_int (\<lceil>?y\<rceil> - 1)" by (rule nr)
  also have "\<dots> < ?y" by linarith
  finally have "(of_nat b :: rat) ^ (?L - 1) < 1 / r" .
  then have "r < 1 / (of_nat b :: rat) ^ (?L - 1)"
    using assms(1) bpos by (simp add: field_simps)
  moreover have "ilog b r + 1 = - int (?L - 1)" using i L by simp
  ultimately have "r < (of_nat b :: rat) powi (ilog b r + 1)"
    by (simp add: power_int_minus_divide power_int_of_nat del: of_nat_power)
  with lo show ?thesis by blast
qed

lemma ilog_unique:
  assumes "1 < b" "of_nat b powi k \<le> r" "r < of_nat b powi (k + 1)"
  shows "ilog b r = k"
proof -
  have b1: "1 < (of_nat b :: rat)" using assms(1) by simp
  then have "0 < (of_nat b :: rat) powi k" by (intro zero_less_power_int) simp
  with assms(2) have r: "0 < r" by simp
  from ilog_bounds[OF r assms(1)] have
    a: "of_nat b powi (ilog b r) \<le> r" and c: "r < of_nat b powi (ilog b r + 1)" by auto
  have "\<not> ilog b r + 1 \<le> k"
  proof
    assume "ilog b r + 1 \<le> k"
    then have "(of_nat b :: rat) powi (ilog b r + 1) \<le> of_nat b powi k"
      using b1 by (intro power_int_increasing) simp_all
    with c assms(2) show False by simp
  qed
  moreover have "\<not> k + 1 \<le> ilog b r"
  proof
    assume "k + 1 \<le> ilog b r"
    then have "(of_nat b :: rat) powi (k + 1) \<le> of_nat b powi (ilog b r)"
      using b1 by (intro power_int_increasing) simp_all
    with a assms(3) show False by simp
  qed
  ultimately show ?thesis by simp
qed

subsection \<open>Rounding the value of a Number\<close>

lemma round_half_even_nat: "round_half_even (of_nat n) = int n"
  by (simp add: round_half_even_def)

lemma round_binary64_at:
  assumes "0 < r" "max (ilog 2 r - 52) (- 1074) = ex" "r / 2 powi ex = of_nat m"
    "m < 2 ^ 53" "ex \<le> 971"
  shows "round_binary64 r =
     (if m = 0 then Zero else if m < 2 ^ 52 then Fields 0 m else Fields (nat (ex + 1075)) (m - 2 ^ 52))"
  using assms by (simp add: round_binary64_def Let_def round_half_even_nat)

lemma two_powi_pos: "0 < (2 :: rat) powi x"
  by (simp add: zero_less_power_int)

lemma two_power_powi: "(2 :: rat) ^ j * 2 powi x = 2 powi (int j + x)"
  by (subst power_int_add) (simp_all add: power_int_of_nat)

lemma scaled_less:
  assumes "sg < 2 ^ j"
  shows "of_nat sg * (2 :: rat) powi x < 2 powi (int j + x)"
proof -
  have "(of_nat sg :: rat) < 2 ^ j"
    using assms by (metis of_nat_less_iff of_nat_numeral of_nat_power)
  then have "of_nat sg * (2 :: rat) powi x < 2 ^ j * 2 powi x"
    by (intro mult_strict_right_mono two_powi_pos)
  then show ?thesis by (simp only: two_power_powi)
qed

lemma scaled_ge:
  assumes "2 ^ j \<le> sg"
  shows "(2 :: rat) powi (int j + x) \<le> of_nat sg * 2 powi x"
proof -
  have "(2 :: rat) ^ j \<le> of_nat sg"
    using assms by (metis of_nat_le_iff of_nat_numeral of_nat_power)
  then have "(2 :: rat) ^ j * 2 powi x \<le> of_nat sg * 2 powi x"
    by (intro mult_right_mono less_imp_le[OF two_powi_pos])
  then show ?thesis by (simp only: two_power_powi)
qed

lemma two_powi_less_cancel: "(2 :: rat) powi a < 2 powi b \<Longrightarrow> a < b"
proof (rule ccontr)
  assume l: "(2 :: rat) powi a < 2 powi b" and "\<not> a < b"
  then have "b \<le> a" by simp
  then have "(2 :: rat) powi b \<le> 2 powi a" by (intro power_int_increasing) simp_all
  with l show False by simp
qed

lemma magnitude_pos: "0 < significand e f \<Longrightarrow> 0 < magnitude e f"
  unfolding magnitude_def by (intro mult_pos_pos two_powi_pos) simp

lemma round_binary64_magnitude:
  assumes "e < 2047" "f < 2 ^ 52" "0 < significand e f"
  shows "round_binary64 (magnitude e f) = Fields e f"
proof -
  define sg where "sg = significand e f"
  define ex where "ex = int (max e 1) - 1075"
  define r where "r = magnitude e f"
  have rdef: "r = of_nat sg * 2 powi ex" by (simp add: r_def sg_def ex_def magnitude_def)
  have r: "0 < r" unfolding r_def using assms(3) by (rule magnitude_pos)
  have q: "r / 2 powi ex = of_nat sg" using two_powi_pos[of ex] by (simp add: rdef)
  have sg53: "sg < 2 ^ 53" using assms(2) by (simp add: sg_def significand_def)
  have ex971: "ex \<le> 971" using assms(1) by (simp add: ex_def)
  have sg0: "sg \<noteq> 0" using assms(3) by (simp add: sg_def)
  have "round_binary64 r = Fields e f"
  proof (cases "e = 0")
    case True
    then have sg: "sg = f" and ex: "ex = - 1074" by (simp_all add: sg_def ex_def significand_def)
    from assms(2) have "r < 2 powi (int 52 + ex)" unfolding rdef sg by (rule scaled_less)
    moreover from ilog_bounds[OF r, of 2] have "2 powi (ilog 2 r) \<le> r" by simp
    ultimately have "(2 :: rat) powi (ilog 2 r) < 2 powi (int 52 + ex)" by simp
    then have "ilog 2 r < int 52 + ex" by (rule two_powi_less_cancel)
    then have m: "max (ilog 2 r - 52) (- 1074) = ex" by (simp add: ex)
    from round_binary64_at[OF r m q sg53 ex971] sg0 assms(2) True show ?thesis
      by (simp add: sg)
  next
    case False
    then have sg: "sg = 2 ^ 52 + f" and ex: "ex = int e - 1075"
      by (simp_all add: sg_def ex_def significand_def)
    have "(2 :: nat) ^ 52 \<le> sg" by (simp add: sg)
    then have lo: "(2 :: rat) powi (int 52 + ex) \<le> r" unfolding rdef by (rule scaled_ge)
    from sg53 have hi: "r < (2 :: rat) powi (int 53 + ex)" unfolding rdef by (rule scaled_less)
    have "int 53 + ex = (int 52 + ex) + 1" by simp
    with hi have hi': "r < (2 :: rat) powi ((int 52 + ex) + 1)" by (simp only:)
    have "ilog 2 r = int 52 + ex"
      using ilog_unique[of 2 "int 52 + ex" r] lo hi' by simp
    then have m: "max (ilog 2 r - 52) (- 1074) = ex" using False by (simp add: ex)
    have "\<not> sg < 2 ^ 52" by (simp add: sg)
    with round_binary64_at[OF r m q sg53 ex971] sg0 False show ?thesis
      by (simp add: sg ex)
  qed
  then show ?thesis by (simp add: r_def)
qed

subsection \<open>The shortest digits\<close>

lemma ten_powi_pos: "0 < (10 :: rat) powi x"
  by (simp add: zero_less_power_int)

lemma ten_powi_less_cancel: "(10 :: rat) powi a < 10 powi b \<Longrightarrow> a < b"
proof (rule ccontr)
  assume l: "(10 :: rat) powi a < 10 powi b" and "\<not> a < b"
  then have "b \<le> a" by simp
  then have "(10 :: rat) powi b \<le> 10 powi a" by (intro power_int_increasing) simp_all
  with l show False by simp
qed

lemma ten_powi_add: "(10 :: rat) powi (a + b) = 10 powi a * 10 powi b"
  by (rule power_int_add) simp

lemma ten_powi_nat: "(10 :: rat) powi (int k) = of_nat (10 ^ k)"
  by (simp add: power_int_of_nat)

lemma scaled_bounds:
  assumes "0 < significand e f"
  shows "(10 :: rat) powi (int k - 1) \<le> scaled e f k" and "scaled e f k < 10 powi (int k)"
proof -
  let ?r = "magnitude e f" and ?n = "decimal_exponent e f"
  have r: "0 < ?r" using assms by (rule magnitude_pos)
  from ilog_bounds[OF r, of 10] have b: "10 powi (?n - 1) \<le> ?r" "?r < 10 powi ?n"
    by (simp_all add: decimal_exponent_def)
  have "(10 :: rat) powi (int k - 1) = 10 powi (?n - 1) * 10 powi (int k - ?n)"
    by (subst ten_powi_add[symmetric]) simp
  also have "\<dots> \<le> ?r * 10 powi (int k - ?n)"
    using b(1) by (intro mult_right_mono less_imp_le[OF ten_powi_pos])
  finally show "(10 :: rat) powi (int k - 1) \<le> scaled e f k" by (simp add: scaled_def)
  have "?r * 10 powi (int k - ?n) < 10 powi ?n * 10 powi (int k - ?n)"
    using b(2) by (intro mult_strict_right_mono ten_powi_pos)
  also have "\<dots> = 10 powi (int k)"
    by (subst ten_powi_add[symmetric]) simp
  finally show "scaled e f k < 10 powi (int k)" by (simp add: scaled_def)
qed

lemma lower_bounds:
  assumes "0 < significand e f" "1 \<le> k"
  shows "10 ^ (k - 1) \<le> lower e f k" and "lower e f k < 10 ^ k"
proof -
  let ?q = "scaled e f k"
  from assms(2) have "int k - 1 = int (k - 1)" by simp
  with scaled_bounds(1)[OF assms(1), of k] have "(of_nat (10 ^ (k - 1)) :: rat) \<le> ?q"
    by (simp only: ten_powi_nat)
  then have "int (10 ^ (k - 1)) \<le> \<lfloor>?q\<rfloor>" by (simp add: le_floor_iff)
  then show "10 ^ (k - 1) \<le> lower e f k" unfolding lower_def by (metis nat_int nat_mono)
  from scaled_bounds(2)[OF assms(1), of k] have "?q < of_nat (10 ^ k)"
    by (simp only: ten_powi_nat)
  then have "\<lfloor>?q\<rfloor> < int (10 ^ k)" by (simp add: floor_less_iff)
  then show "lower e f k < 10 ^ k" unfolding lower_def
    by (metis nat_int nat_mono_iff of_nat_0_less_iff zero_less_numeral zero_less_power)
qed

lemma upper_bounds:
  assumes "0 < significand e f" "1 \<le> k"
  shows "10 ^ (k - 1) \<le> fst (upper e f k)" and "fst (upper e f k) < 10 ^ k"
proof -
  from assms(2) have "(10 :: nat) ^ (k - 1) < 10 ^ k" by (intro power_strict_increasing) simp_all
  with lower_bounds[OF assms] show "10 ^ (k - 1) \<le> fst (upper e f k)" "fst (upper e f k) < 10 ^ k"
    by (auto simp: upper_def)
qed

lemma candidate_sound:
  assumes "candidate e f k = Some sn" "0 < significand e f" "1 \<le> k"
  shows "rounds_to e f sn k \<and> 10 ^ (k - 1) \<le> fst sn \<and> fst sn < 10 ^ k"
proof -
  from assms(1) have "(sn = (lower e f k, decimal_exponent e f) \<or> sn = upper e f k) \<and> rounds_to e f sn k"
    unfolding candidate_def Let_def by (simp split: if_splits)
  with lower_bounds[OF assms(2,3)] upper_bounds[OF assms(2,3)] show ?thesis by auto
qed

lemma candidate_complete:
  "rounds_to e f (lower e f k, decimal_exponent e f) k \<Longrightarrow> candidate e f k \<noteq> None"
  unfolding candidate_def Let_def by simp

lemma shortest_sound:
  "shortest fuel e f k = Some (s, n, k') \<Longrightarrow> k \<le> k' \<and> candidate e f k' = Some (s, n)"
proof (induction fuel arbitrary: k)
  case 0
  then show ?case by simp
next
  case (Suc fuel)
  show ?case
  proof (cases "candidate e f k")
    case None
    with Suc.prems have "shortest fuel e f (Suc k) = Some (s, n, k')" by simp
    from Suc.IH[OF this] show ?thesis by simp
  next
    case (Some sn)
    with Suc.prems show ?thesis by (cases sn) simp
  qed
qed

lemma shortest_complete:
  "k \<le> k0 \<Longrightarrow> k0 < k + fuel \<Longrightarrow> candidate e f k0 \<noteq> None \<Longrightarrow> shortest fuel e f k \<noteq> None"
proof (induction fuel arbitrary: k)
  case 0
  then show ?case by simp
next
  case (Suc fuel)
  show ?case
  proof (cases "candidate e f k")
    case None
    with Suc.prems have "k \<noteq> k0" by auto
    with Suc.prems have "Suc k \<le> k0" "k0 < Suc k + fuel" by simp_all
    from Suc.IH[OF this Suc.prems(3)] None show ?thesis by simp
  next
    case (Some sn)
    then show ?thesis by (cases sn) simp
  qed
qed

lemma magnitude_exact:
  assumes "0 < significand e f"
  shows "\<exists>Q. magnitude e f * 10 powi (max 0 (1075 - int (max e 1))) = of_nat Q \<and> 0 < Q"
proof -
  define sg where "sg = significand e f"
  define ex where "ex = int (max e 1) - 1075"
  have m: "magnitude e f = of_nat sg * 2 powi ex" by (simp add: magnitude_def sg_def ex_def)
  have j: "max 0 (1075 - int (max e 1)) = max 0 (- ex)" by (simp add: ex_def)
  show ?thesis
  proof (cases "0 \<le> ex")
    case True
    then have "(2 :: rat) powi ex = 2 ^ nat ex" by (simp add: power_int_def)
    then have "magnitude e f * 10 powi (max 0 (- ex)) = of_nat (sg * 2 ^ nat ex)"
      using True by (simp add: m)
    moreover have "0 < sg * 2 ^ nat ex" using assms by (simp add: sg_def)
    ultimately show ?thesis unfolding j by blast
  next
    case False
    define d where "d = nat (- ex)"
    from False have ex: "ex = - int d" by (simp add: d_def)
    have "(2 :: rat) powi ex = 1 / 2 ^ d" by (simp add: ex power_int_minus_divide power_int_of_nat)
    moreover have "(10 :: rat) powi (max 0 (- ex)) = 2 ^ d * 5 ^ d"
    proof -
      have "(10 :: rat) = 2 * 5" by simp
      then have "(10 :: rat) ^ d = 2 ^ d * 5 ^ d" by (metis power_mult_distrib)
      then show ?thesis by (simp add: ex power_int_of_nat)
    qed
    ultimately have "magnitude e f * 10 powi (max 0 (- ex)) = of_nat (sg * 5 ^ d)"
      by (simp add: m)
    moreover have "0 < sg * 5 ^ d" using assms by (simp add: sg_def)
    ultimately show ?thesis unfolding j by blast
  qed
qed

lemma exact_candidate:
  assumes "e < 2047" "f < 2 ^ 52" "0 < significand e f"
  shows "1 \<le> exact_digits e f"
    and "rounds_to e f (lower e f (exact_digits e f), decimal_exponent e f) (exact_digits e f)"
proof -
  define r where "r = magnitude e f"
  define n where "n = decimal_exponent e f"
  define j where "j = max 0 (1075 - int (max e 1))"
  define K where "K = exact_digits e f"
  obtain Q where Q: "r * 10 powi j = of_nat Q" "0 < Q"
    using magnitude_exact[OF assms(3)] unfolding r_def j_def by blast
  have r: "0 < r" unfolding r_def using assms(3) by (rule magnitude_pos)
  from ilog_bounds[OF r, of 10] have "r < 10 powi n" by (simp add: n_def decimal_exponent_def r_def)
  then have "r * 10 powi j < 10 powi n * 10 powi j"
    by (intro mult_strict_right_mono ten_powi_pos)
  also have "\<dots> = 10 powi (n + j)" by (rule ten_powi_add[symmetric])
  finally have "of_nat Q < (10 :: rat) powi (n + j)" by (simp add: Q)
  moreover have "(1 :: rat) \<le> of_nat Q" using Q(2) by simp
  ultimately have "(10 :: rat) powi 0 < 10 powi (n + j)" by simp
  then have nj: "0 < n + j" by (rule ten_powi_less_cancel)
  have K: "int K = n + j" using nj by (simp add: K_def exact_digits_def n_def j_def)
  from nj K show "1 \<le> exact_digits e f" unfolding K_def by linarith
  have s: "scaled e f K = of_nat Q"
    using Q(1) K by (simp add: scaled_def r_def n_def)
  then have l: "lower e f K = Q" by (simp add: lower_def)
  have "of_nat Q * (10 :: rat) powi (n - int K) = r * (10 powi j * 10 powi (- j))"
    using K by (simp add: Q(1)[symmetric])
  also have "(10 :: rat) powi j * 10 powi (- j) = 1"
    by (subst ten_powi_add[symmetric]) simp
  finally have "of_nat Q * (10 :: rat) powi (n - int K) = r" by simp
  then have "rounds_to e f (lower e f K, decimal_exponent e f) K"
    using round_binary64_magnitude[OF assms]
    by (simp add: rounds_to_def l n_def r_def)
  then show "rounds_to e f (lower e f (exact_digits e f), decimal_exponent e f) (exact_digits e f)"
    by (simp add: K_def)
qed

lemma shortest_digits_total:
  assumes "e < 2047" "f < 2 ^ 52" "0 < significand e f"
  obtains s n k where "shortest_digits e f = Some (s, n, k)" "1 \<le> k" "10 ^ (k - 1) \<le> s" "s < 10 ^ k"
    "round_binary64 (of_nat s * 10 powi (n - int k)) = Fields e f"
proof -
  note x = exact_candidate[OF assms]
  from x(1) have K: "1 \<le> exact_digits e f" .
  from x(2) have "candidate e f (exact_digits e f) \<noteq> None" by (rule candidate_complete)
  with K have "shortest (exact_digits e f) e f 1 \<noteq> None"
    by (intro shortest_complete[of 1 "exact_digits e f"]) simp_all
  then obtain s n k where g: "shortest_digits e f = Some (s, n, k)"
    unfolding shortest_digits_def by (cases "shortest (exact_digits e f) e f 1") auto
  from shortest_sound[OF g[unfolded shortest_digits_def]] have k: "1 \<le> k"
    and c: "candidate e f k = Some (s, n)" by simp_all
  from candidate_sound[OF c assms(3) k] g k that show ?thesis
    by (simp add: rounds_to_def)
qed

subsection \<open>Strings\<close>

lemma unat_small: "n < 65536 \<Longrightarrow> unat (of_nat n :: code_unit) = n"
  by (simp add: unat_of_nat)

lemma hex_value_hex_digit: "hex_value (hex_digit d) = Some (d mod 16)"
proof (cases "d mod 16 < 10")
  case True
  then have "unat (of_nat (48 + d mod 16) :: code_unit) = 48 + d mod 16"
    by (intro unat_small) simp
  with True show ?thesis by (simp add: hex_value_def hex_digit_def Let_def)
next
  case False
  have "d mod 16 < 16" by simp
  then have "unat (of_nat (87 + d mod 16) :: code_unit) = 87 + d mod 16"
    by (intro unat_small) simp
  with False \<open>d mod 16 < 16\<close> show ?thesis by (simp add: hex_value_def hex_digit_def Let_def)
qed

lemma hex_recompose:
  assumes "n < 65536"
  shows "((n div 4096 mod 16 * 16 + n div 256 mod 16) * 16 + n div 16 mod 16) * 16 + n mod 16 = (n :: nat)"
proof -
  have a: "n div 16 mod 16 * 16 + n mod 16 = n mod 256"
    using mod_mult2_eq[of n 16 16] by simp
  have b: "n div 256 mod 16 * 256 + n mod 256 = n mod 4096"
    using mod_mult2_eq[of n 256 16] by simp
  have c: "n div 4096 mod 16 = n div 4096" using assms by simp
  have d: "n div 4096 * 4096 + n mod 4096 = n" by simp
  have "((n div 4096 mod 16 * 16 + n div 256 mod 16) * 16 + n div 16 mod 16) * 16 + n mod 16
      = n div 4096 * 4096 + (n div 256 mod 16 * 256 + (n div 16 mod 16 * 16 + n mod 16))"
    by (simp add: c algebra_simps)
  also have "\<dots> = n" by (simp only: a b d)
  finally show ?thesis .
qed

lemma hex4_values:
  "hex_value h1 = Some a \<Longrightarrow> hex_value h2 = Some b \<Longrightarrow> hex_value h3 = Some c \<Longrightarrow>
   hex_value h4 = Some d \<Longrightarrow> hex4 h1 h2 h3 h4 = Some (of_nat (((a * 16 + b) * 16 + c) * 16 + d))"
  by (simp add: hex4_def)

lemma hex4_escape:
  "hex4 (hex_digit (unat c div 4096)) (hex_digit (unat c div 256)) (hex_digit (unat c div 16))
     (hex_digit (unat c)) = Some c"
proof -
  let ?n = "unat c"
  have "?n < 65536" using unsigned_less[of c, where 'a = nat] by simp
  from hex_recompose[OF this] have
    "(of_nat (((?n div 4096 mod 16 * 16 + ?n div 256 mod 16) * 16 + ?n div 16 mod 16) * 16 + ?n mod 16) :: 16 word)
       = of_nat ?n" by (simp only:)
  also have "\<dots> = c" by simp
  finally show ?thesis
    using hex4_values[OF hex_value_hex_digit hex_value_hex_digit hex_value_hex_digit hex_value_hex_digit,
        of "?n div 4096" "?n div 256" "?n div 16" ?n]
    by (simp only:)
qed

lemma parse_chars_escape:
  "parse_chars (UnicodeEscape c @ s) = cons_result c (parse_chars s)"
  by (simp add: UnicodeEscape_def Let_def hex4_escape)

lemma parse_chars_quote_unit:
  "parse_chars (quote_unit c @ s) = cons_result c (parse_chars s)"
proof -
  consider "c = 0x08" | "c = 0x09" | "c = 0x0A" | "c = 0x0C" | "c = 0x0D"
    | "c = 0x22" | "c = 0x5C"
    | "c \<noteq> 0x08" "c \<noteq> 0x09" "c \<noteq> 0x0A" "c \<noteq> 0x0C" "c \<noteq> 0x0D"
      "c \<noteq> 0x22" "c \<noteq> 0x5C" "unat c < 0x20"
    | "c \<noteq> 0x08" "c \<noteq> 0x09" "c \<noteq> 0x0A" "c \<noteq> 0x0C" "c \<noteq> 0x0D"
      "c \<noteq> 0x22" "c \<noteq> 0x5C" "\<not> unat c < 0x20"
    by blast
  then show ?thesis
  proof cases
    case 8
    then show ?thesis
      by (simp add: quote_unit_def parse_chars_escape)
  next
    case 9
    then show ?thesis by (simp add: quote_unit_def)
  qed (simp_all add: quote_unit_def unescape_def)
qed

lemma surrogate_plain:
  assumes "is_leading_surrogate c \<or> is_trailing_surrogate c"
  shows "parse_chars (c # s) = cons_result c (parse_chars s)"
proof -
  from assms have "0xD800 \<le> unat c" by (auto simp: is_leading_surrogate_def is_trailing_surrogate_def)
  then have "c \<noteq> 0x22" "c \<noteq> 0x5C" "\<not> unat c < 0x20" by auto
  then show ?thesis by simp
qed

lemma parse_chars_close: "parse_chars (0x22 # rest) = Some ([], rest)"
  by simp

lemma parse_chars_quoted:
  "parse_chars (quote_units s @ 0x22 # rest) = Some (s, rest)"
proof (induction s rule: quote_units.induct)
  case 1
  then show ?case by simp
next
  case (2 c)
  then show ?case
    by (simp add: parse_chars_escape parse_chars_quote_unit parse_chars_close cons_result_def
        del: parse_chars.simps)
next
  case (3 c d cs)
  show ?case
  proof (cases "is_leading_surrogate c \<and> is_trailing_surrogate d")
    case True
    then have "parse_chars (c # d # quote_units cs @ 0x22 # rest) = Some (c # d # cs, rest)"
      using 3(1) by (simp add: surrogate_plain cons_result_def del: parse_chars.simps)
    with True show ?thesis by (simp del: parse_chars.simps)
  next
    case False
    show ?thesis
    proof (cases "is_leading_surrogate c \<or> is_trailing_surrogate c")
      case True
      from 3(2)[OF False True] have "parse_chars (quote_units (d # cs) @ 0x22 # rest) = Some (d # cs, rest)" .
      then have "parse_chars (UnicodeEscape c @ quote_units (d # cs) @ 0x22 # rest) = Some (c # d # cs, rest)"
        by (simp only: parse_chars_escape cons_result_def option.case prod.case)
      moreover from False True have "quote_units (c # d # cs) = UnicodeEscape c @ quote_units (d # cs)"
        by auto
      ultimately show ?thesis by (simp del: parse_chars.simps quote_units.simps)
    next
      case nosur: False
      from 3(3)[OF False nosur] have "parse_chars (quote_units (d # cs) @ 0x22 # rest) = Some (d # cs, rest)" .
      then have "parse_chars (quote_unit c @ quote_units (d # cs) @ 0x22 # rest) = Some (c # d # cs, rest)"
        by (simp only: parse_chars_quote_unit cons_result_def option.case prod.case)
      moreover from False nosur have "quote_units (c # d # cs) = quote_unit c @ quote_units (d # cs)"
        by auto
      ultimately show ?thesis by (simp del: parse_chars.simps quote_units.simps)
    qed
  qed
qed

subsection \<open>Numbers\<close>

lemma unat_digit_unit: "unat (digit_unit d) = 48 + d mod 10"
proof -
  have "48 + d mod 10 < 65536" by arith
  then show ?thesis unfolding digit_unit_def by (rule unat_small)
qed

lemma is_digit_digit_unit: "is_digit (digit_unit d)"
  by (simp add: is_digit_def unat_digit_unit)

lemma decimal_digits_small: "n < 10 \<Longrightarrow> decimal_digits n = [digit_unit n]"
  by (subst decimal_digits.simps) simp

lemma decimal_digits_large:
  "\<not> n < 10 \<Longrightarrow> decimal_digits n = decimal_digits (n div 10) @ [digit_unit (n mod 10)]"
  by (subst decimal_digits.simps) simp

lemma decimal_digits_all: "list_all is_digit (decimal_digits n)"
proof (induction n rule: decimal_digits.induct)
  case (1 n)
  then show ?case
    by (cases "n < 10") (simp_all add: decimal_digits_small decimal_digits_large is_digit_digit_unit)
qed

lemma decimal_digits_ne: "decimal_digits n \<noteq> []"
  by (cases "n < 10") (simp_all add: decimal_digits_small decimal_digits_large)

lemma digits_value_append:
  "digits_value (xs @ ys) = digits_value xs * 10 ^ length ys + digits_value ys"
proof (induction ys rule: rev_induct)
  case Nil
  then show ?case by (simp add: digits_value_def)
next
  case (snoc y ys)
  have "digits_value ((xs @ ys) @ [y]) = 10 * digits_value (xs @ ys) + (unat y - 48)"
    by (simp add: digits_value_def)
  moreover have "digits_value (ys @ [y]) = 10 * digits_value ys + (unat y - 48)"
    by (simp add: digits_value_def)
  ultimately show ?case using snoc.IH by (simp add: algebra_simps)
qed

lemma digits_value_single: "digits_value [c] = unat c - 48"
  by (simp add: digits_value_def)

lemma digits_value_decimal_digits: "digits_value (decimal_digits n) = n"
proof (induction n rule: decimal_digits.induct)
  case (1 n)
  show ?case
  proof (cases "n < 10")
    case True
    then show ?thesis by (simp add: decimal_digits_small digits_value_single unat_digit_unit)
  next
    case False
    with "1.IH" show ?thesis
      by (simp add: decimal_digits_large digits_value_append digits_value_single unat_digit_unit)
  qed
qed

lemma digits_value_zeros: "digits_value (replicate j 0x30) = 0"
proof (induction j)
  case 0
  then show ?case by (simp add: digits_value_def)
next
  case (Suc j)
  have "digits_value (replicate (Suc j) 0x30) = digits_value (replicate j 0x30 @ [0x30])"
    by (simp only: replicate_Suc replicate_append_same)
  also have "\<dots> = 0" using Suc.IH by (simp add: digits_value_append digits_value_single)
  finally show ?case .
qed

lemma length_decimal_digits:
  "1 \<le> k \<Longrightarrow> 10 ^ (k - 1) \<le> s \<Longrightarrow> s < 10 ^ k \<Longrightarrow> length (decimal_digits s) = k"
proof (induction s arbitrary: k rule: decimal_digits.induct)
  case (1 n)
  show ?case
  proof (cases "n < 10")
    case True
    have "k = 1"
    proof (rule ccontr)
      assume "k \<noteq> 1"
      with "1.prems"(1) have "2 \<le> k" by simp
      then have "(10 :: nat) ^ 1 \<le> 10 ^ (k - 1)" by (intro power_increasing) simp_all
      with "1.prems"(2) True show False by simp
    qed
    with True show ?thesis by (simp add: decimal_digits_small)
  next
    case False
    have k2: "2 \<le> k"
    proof (rule ccontr)
      assume "\<not> 2 \<le> k"
      with "1.prems"(1) have "k = 1" by simp
      with "1.prems"(3) False show False by simp
    qed
    then obtain k' where k': "k = Suc k'" "1 \<le> k'" by (cases k) auto
    from "1.prems"(3) have "n div 10 < 10 ^ k'" by (simp add: k' less_mult_imp_div_less mult.commute)
    moreover have "10 ^ (k' - 1) \<le> n div 10"
    proof -
      from k'(2) obtain k'' where "k' = Suc k''" by (cases k') auto
      with "1.prems"(2) k' have "10 * 10 ^ k'' \<le> n" by simp
      then have "10 ^ k'' \<le> n div 10" by (simp add: less_eq_div_iff_mult_less_eq mult.commute)
      with \<open>k' = Suc k''\<close> show ?thesis by simp
    qed
    ultimately have "length (decimal_digits (n div 10)) = k'"
      using "1.IH"[OF False k'(2)] by simp
    with False show ?thesis by (simp add: decimal_digits_large k')
  qed
qed

lemma digit_unit_zero: "digit_unit d = 0x30 \<Longrightarrow> d mod 10 = 0"
proof -
  assume "digit_unit d = 0x30"
  then have "unat (digit_unit d) = unat (0x30 :: code_unit)" by simp
  then show ?thesis by (simp add: unat_digit_unit)
qed

lemma decimal_digits_hd: "0 < n \<Longrightarrow> hd (decimal_digits n) \<noteq> 0x30"
proof (induction n rule: decimal_digits.induct)
  case (1 n)
  show ?case
  proof (cases "n < 10")
    case True
    with "1.prems" show ?thesis using digit_unit_zero[of n] by (auto simp: decimal_digits_small)
  next
    case False
    then have "0 < n div 10" by simp
    with "1.IH" False show ?thesis by (simp add: decimal_digits_large decimal_digits_ne)
  qed
qed

lemma not_digit_delimited:
  "delimited rest \<Longrightarrow> takeWhile is_digit rest = [] \<and> dropWhile is_digit rest = rest"
  by (cases rest) (auto simp: delimited_def is_digit_def)

lemma takeWhile_digits:
  "list_all is_digit ds \<Longrightarrow> takeWhile is_digit rest = [] \<Longrightarrow> takeWhile is_digit (ds @ rest) = ds"
  by (simp add: takeWhile_append2 list_all_iff)

lemma dropWhile_digits:
  "list_all is_digit ds \<Longrightarrow> dropWhile is_digit rest = rest \<Longrightarrow> dropWhile is_digit (ds @ rest) = rest"
  by (simp add: dropWhile_append2 list_all_iff)

lemma parse_fraction_none:
  "delimited rest \<Longrightarrow> parse_fraction rest = Some ([], rest)"
  by (cases rest) (auto simp: delimited_def parse_fraction_def)

lemma parse_exponent_none:
  "delimited rest \<Longrightarrow> parse_exponent rest = Some (0, rest)"
  by (cases rest) (auto simp: delimited_def parse_exponent_def)

lemma parse_fraction_digits:
  assumes "list_all is_digit fd" "fd \<noteq> []" "takeWhile is_digit rest = []" "dropWhile is_digit rest = rest"
  shows "parse_fraction (0x2E # fd @ rest) = Some (fd, rest)"
  using assms by (simp add: parse_fraction_def takeWhile_digits dropWhile_digits)

lemma parse_fraction_exp: "parse_fraction (0x65 # rest) = Some ([], 0x65 # rest)"
  by (simp add: parse_fraction_def)

lemma parse_exponent_signed:
  assumes "delimited rest"
  shows "parse_exponent (0x65 # 0x2D # decimal_digits m @ rest) = Some (- int m, rest)"
    and "parse_exponent (0x65 # 0x2B # decimal_digits m @ rest) = Some (int m, rest)"
proof -
  note d = not_digit_delimited[OF assms]
  have t: "takeWhile is_digit (decimal_digits m @ rest) = decimal_digits m"
    using d by (intro takeWhile_digits decimal_digits_all) simp
  have r: "dropWhile is_digit (decimal_digits m @ rest) = rest"
    using d by (intro dropWhile_digits decimal_digits_all) simp
  show "parse_exponent (0x65 # 0x2D # decimal_digits m @ rest) = Some (- int m, rest)"
    by (simp add: parse_exponent_def Let_def t r decimal_digits_ne digits_value_decimal_digits)
  show "parse_exponent (0x65 # 0x2B # decimal_digits m @ rest) = Some (int m, rest)"
    by (simp add: parse_exponent_def Let_def t r decimal_digits_ne digits_value_decimal_digits)
qed

lemma parse_exponent_digits:
  assumes "delimited rest"
  shows "parse_exponent (0x65 # (if e < 0 then 0x2D else 0x2B) # decimal_digits (nat \<bar>e\<bar>) @ rest)
     = Some (e, rest)"
  using parse_exponent_signed[OF assms, of "nat \<bar>e\<bar>"] by (cases "e < 0") simp_all

lemma not_digit_point: "takeWhile is_digit (0x2E # xs) = [] \<and> dropWhile is_digit (0x2E # xs) = 0x2E # xs"
  by (simp add: is_digit_def)

lemma not_digit_exp: "takeWhile is_digit (0x65 # xs) = [] \<and> dropWhile is_digit (0x65 # xs) = 0x65 # xs"
  by (simp add: is_digit_def)

lemma parse_int_part_digits:
  assumes "list_all is_digit ds" "ds \<noteq> []" "hd ds \<noteq> 0x30"
    "takeWhile is_digit rest = []" "dropWhile is_digit rest = rest"
  shows "parse_int_part (ds @ rest) = Some (ds, rest)"
proof -
  from assms(2) obtain c cs where ds: "ds = c # cs" by (cases ds) auto
  with assms(1,3) have c: "is_digit c" "c \<noteq> 0x30" by simp_all
  have "takeWhile is_digit (ds @ rest) = ds" "dropWhile is_digit (ds @ rest) = rest"
    using assms by (simp_all add: takeWhile_digits dropWhile_digits)
  then show ?thesis using c by (simp add: parse_int_part_def ds)
qed

lemma parse_decimal_unsigned:
  assumes "text = c # cs" "c \<noteq> 0x2D" "parse_int_part text = Some (ip, s2)"
    "parse_fraction s2 = Some (fp, s3)" "parse_exponent s3 = Some (ex, s4)"
  shows "parse_decimal text = Some ((False, digits_value (ip @ fp), ex - int (length fp)), s4)"
  using assms by (simp add: parse_decimal_def)

lemma parse_decimal_layout:
  assumes "1 \<le> k" "10 ^ (k - 1) \<le> s" "s < 10 ^ k" "delimited rest"
  shows "\<exists>D p. parse_decimal (decimal_layout s n k @ rest) = Some ((False, D, p), rest) \<and>
           (of_nat D :: rat) * 10 powi p = of_nat s * 10 powi (n - int k) \<and> 0 < D"
proof -
  define ds where "ds = decimal_digits s"
  have len: "length ds = k" unfolding ds_def using assms(1-3) by (rule length_decimal_digits)
  have all: "list_all is_digit ds" unfolding ds_def by (rule decimal_digits_all)
  have s0: "0 < s" using assms(2) by (metis gr0I not_one_le_zero one_le_numeral one_le_power order_trans)
  have hd0: "hd ds \<noteq> 0x30" unfolding ds_def using s0 by (rule decimal_digits_hd)
  have ne: "ds \<noteq> []" unfolding ds_def by (rule decimal_digits_ne)
  then obtain c cs where dcs: "ds = c # cs" by (cases ds) auto
  with all have c: "is_digit c" by simp
  then have cm: "c \<noteq> 0x2D" by (auto simp: is_digit_def)
  have val: "digits_value ds = s" unfolding ds_def by (rule digits_value_decimal_digits)
  note dl = not_digit_delimited[OF assms(4)]
  note pf = parse_fraction_none[OF assms(4)]
  note pe = parse_exponent_none[OF assms(4)]
  consider (a) "int k \<le> n" "n \<le> 21"
    | (b) "\<not> int k \<le> n" "0 < n" "n \<le> 21"
    | (c) "- 6 < n" "n \<le> 0"
    | (d) "\<not> (int k \<le> n \<and> n \<le> 21)" "\<not> (0 < n \<and> n \<le> 21)" "\<not> (- 6 < n \<and> n \<le> 0)"
    by linarith
  then show ?thesis
  proof cases
    case a
    define j where "j = nat n - k"
    have j: "n - int k = int j" using a assms(1) by (simp add: j_def)
    let ?ip = "ds @ replicate j 0x30"
    have lay: "decimal_layout s n k @ rest = ?ip @ rest"
      using a by (simp add: decimal_layout_def ds_def[symmetric] j_def)
    have "list_all is_digit ?ip" using all by (auto simp: is_digit_def list_all_iff)
    moreover have "?ip \<noteq> []" "hd ?ip \<noteq> 0x30" using ne hd0 by simp_all
    ultimately have ip: "parse_int_part (?ip @ rest) = Some (?ip, rest)"
      using dl by (intro parse_int_part_digits) simp_all
    have t: "?ip @ rest = c # (cs @ replicate j 0x30 @ rest)" by (simp add: dcs)
    from parse_decimal_unsigned[OF t cm ip pf pe]
    have "parse_decimal (decimal_layout s n k @ rest) = Some ((False, digits_value ?ip, 0), rest)"
      by (simp add: lay)
    moreover have "digits_value ?ip = s * 10 ^ j"
      by (simp add: digits_value_append digits_value_zeros val)
    moreover have "(of_nat (s * 10 ^ j) :: rat) * 10 powi 0 = of_nat s * 10 powi (n - int k)"
      by (simp add: j power_int_of_nat)
    moreover have "0 < s * 10 ^ j" using s0 by simp
    ultimately show ?thesis by metis
  next
    case b
    define m where "m = nat n"
    have m: "0 < m" "m < k" "int m = n" using b by (simp_all add: m_def)
    let ?ip = "take m ds" and ?fp = "drop m ds"
    have lay: "decimal_layout s n k @ rest = ?ip @ 0x2E # ?fp @ rest"
      using b by (simp add: decimal_layout_def ds_def[symmetric] m_def)
    have ipd: "list_all is_digit ?ip" "?ip \<noteq> []" "hd ?ip \<noteq> 0x30"
      using all ne hd0 m(1) by (auto simp: list_all_iff dest: in_set_takeD)
    have ip: "parse_int_part (?ip @ 0x2E # ?fp @ rest) = Some (?ip, 0x2E # ?fp @ rest)"
      using ipd not_digit_point[of "?fp @ rest"] by (intro parse_int_part_digits) simp_all
    have fpd: "list_all is_digit ?fp" "?fp \<noteq> []"
      using all m(2) len by (auto simp: list_all_iff dest: in_set_dropD)
    have fp: "parse_fraction (0x2E # ?fp @ rest) = Some (?fp, rest)"
      using fpd dl by (intro parse_fraction_digits) simp_all
    have t: "?ip @ 0x2E # ?fp @ rest = c # (take (m - 1) cs @ 0x2E # ?fp @ rest)"
      using m(1) by (cases m) (simp_all add: dcs)
    from parse_decimal_unsigned[OF t cm ip fp pe]
    have "parse_decimal (decimal_layout s n k @ rest) =
        Some ((False, digits_value (?ip @ ?fp), 0 - int (length ?fp)), rest)"
      by (simp only: lay)
    moreover have "digits_value (?ip @ ?fp) = s" by (simp add: val)
    moreover have "0 - int (length ?fp) = n - int k" using m len by simp
    ultimately show ?thesis using s0 by metis
  next
    case c
    define z where "z = nat (- n)"
    let ?fp = "replicate z 0x30 @ ds"
    have lay: "decimal_layout s n k @ rest = [0x30] @ 0x2E # ?fp @ rest"
      using c assms(1) by (simp add: decimal_layout_def ds_def[symmetric] z_def)
    have ip: "parse_int_part ([0x30] @ 0x2E # ?fp @ rest) = Some ([0x30], 0x2E # ?fp @ rest)"
      by (simp add: parse_int_part_def)
    have "list_all is_digit ?fp" "?fp \<noteq> []" using all ne by (auto simp: is_digit_def list_all_iff)
    then have fp: "parse_fraction (0x2E # ?fp @ rest) = Some (?fp, rest)"
      using dl by (intro parse_fraction_digits) simp_all
    have t: "[0x30] @ 0x2E # ?fp @ rest = 0x30 # (0x2E # ?fp @ rest)" by simp
    have z3: "(0x30 :: code_unit) \<noteq> 0x2D" by simp
    from parse_decimal_unsigned[OF t z3 ip fp pe]
    have "parse_decimal (decimal_layout s n k @ rest) =
        Some ((False, digits_value ([0x30] @ ?fp), 0 - int (length ?fp)), rest)"
      by (simp only: lay)
    moreover have "digits_value ([0x30] @ ?fp) = s"
      by (simp only: digits_value_append digits_value_zeros digits_value_single val) simp
    moreover have "0 - int (length ?fp) = n - int k" using c len by (simp add: z_def)
    ultimately show ?thesis using s0 by metis
  next
    case d
    define e where "e = n - 1"
    define X where "X = 0x65 # (if e < 0 then 0x2D else 0x2B) # decimal_digits (nat \<bar>e\<bar>)"
    have px: "parse_exponent (X @ rest) = Some (e, rest)"
      unfolding X_def using parse_exponent_digits[OF assms(4), of e] by simp
    have xs: "X @ rest = 0x65 # tl X @ rest" by (simp add: X_def)
    have dlay: "decimal_layout s n k = (if k = 1 then ds @ X else hd ds # 0x2E # tl ds @ X)"
      unfolding decimal_layout_def Let_def ds_def[symmetric] X_def e_def
      by (simp only: d if_False)
    show ?thesis
    proof (cases "k = 1")
      case True
      have lay: "decimal_layout s n k @ rest = ds @ X @ rest"
        using dlay unfolding True by simp
      have ip: "parse_int_part (ds @ X @ rest) = Some (ds, X @ rest)"
        using all ne hd0 not_digit_exp[of "tl X @ rest"]
        by (intro parse_int_part_digits) (simp_all add: xs)
      have fp: "parse_fraction (X @ rest) = Some ([], X @ rest)"
        by (simp add: xs parse_fraction_exp)
      have t: "ds @ X @ rest = c # (cs @ X @ rest)" by (simp add: dcs)
      from parse_decimal_unsigned[OF t cm ip fp px]
      have "parse_decimal (decimal_layout s n k @ rest) = Some ((False, digits_value ds, e), rest)"
        by (simp add: lay)
      moreover have "e = n - int k" using True by (simp add: e_def)
      ultimately show ?thesis using s0 val by metis
    next
      case False
      with assms(1) have k2: "2 \<le> k" by simp
      have lay: "decimal_layout s n k @ rest = [c] @ 0x2E # cs @ X @ rest"
        using dlay False by (simp add: dcs)
      have c0: "c \<noteq> 0x30" using hd0 by (simp add: dcs)
      have ip: "parse_int_part ([c] @ 0x2E # cs @ X @ rest) = Some ([c], 0x2E # cs @ X @ rest)"
        using c c0 not_digit_point[of "cs @ X @ rest"]
        by (intro parse_int_part_digits) simp_all
      have csd: "list_all is_digit cs" "cs \<noteq> []" using all len k2 by (auto simp: dcs)
      have fp: "parse_fraction (0x2E # cs @ X @ rest) = Some (cs, X @ rest)"
        using csd not_digit_exp[of "tl X @ rest"]
        by (intro parse_fraction_digits) (simp_all add: xs)
      have t: "[c] @ 0x2E # cs @ X @ rest = c # (0x2E # cs @ X @ rest)" by simp
      from parse_decimal_unsigned[OF t cm ip fp px]
      have "parse_decimal (decimal_layout s n k @ rest) =
          Some ((False, digits_value ([c] @ cs), e - int (length cs)), rest)"
        by (simp only: lay)
      moreover have "digits_value ([c] @ cs) = s" using val by (simp add: dcs)
      moreover have "e - int (length cs) = n - int k" using len by (simp add: e_def dcs)
      ultimately show ?thesis using s0 by metis
    qed
  qed
qed

lemma binary64_fields:
  "binary64_of (sign_bit x) (biased_exponent x) (trailing_significand x) = x"
proof -
  define u where "u = unat x"
  have u: "u < 2 ^ 64" unfolding u_def using unsigned_less[of x, where 'a = nat] by simp
  have "u mod (2 ^ 52 * 2048) = 2 ^ 52 * (u div 2 ^ 52 mod 2048) + u mod 2 ^ 52"
    by (rule mod_mult2_eq)
  then have a: "u mod 2 ^ 63 = (u div 2 ^ 52 mod 2048) * 2 ^ 52 + u mod 2 ^ 52" by simp
  have b: "u = (if 2 ^ 63 \<le> u then 2 ^ 63 else 0) + u mod 2 ^ 63"
  proof (cases "(2 :: nat) ^ 63 \<le> u")
    case True
    with u have "u - 2 ^ 63 < 2 ^ 63" by simp
    then have "(u - 2 ^ 63) mod 2 ^ 63 = u - 2 ^ 63" by simp
    moreover have "u mod 2 ^ 63 = (u - 2 ^ 63) mod 2 ^ 63" using True by (simp add: le_mod_geq)
    ultimately show ?thesis using True by simp
  next
    case False
    then show ?thesis by simp
  qed
  have "(if 2 ^ 63 \<le> u then 2 ^ 63 else 0) + (u div 2 ^ 52 mod 2048) * 2 ^ 52 + u mod 2 ^ 52 = u"
    using a b by presburger
  then have "binary64_of (sign_bit x) (biased_exponent x) (trailing_significand x) = of_nat u"
    unfolding binary64_of_def sign_bit_def biased_exponent_def trailing_significand_def u_def[symmetric]
    by (simp only:)
  then show ?thesis by (simp add: u_def)
qed

lemma trailing_significand_less: "trailing_significand x < 2 ^ 52"
  by (simp add: trailing_significand_def)

lemma positive_zero:
  assumes "biased_exponent x = 0" "trailing_significand x = 0" "x \<noteq> negative_zero"
  shows "x = 0"
proof -
  have "binary64_of (sign_bit x) 0 0 = x" using binary64_fields[of x] assms by simp
  then have "x = (if sign_bit x then of_nat (2 ^ 63) else 0)"
    by (cases "sign_bit x") (simp_all add: binary64_of_def)
  moreover have "(of_nat (2 ^ 63) :: binary64) = negative_zero" by (simp add: negative_zero_def)
  ultimately show ?thesis using assms(3) by (simp split: if_splits)
qed

lemma parse_decimal_zero:
  "delimited rest \<Longrightarrow> parse_decimal (0x30 # rest) = Some ((False, 0, 0), rest)"
  using parse_fraction_none[of rest] parse_exponent_none[of rest]
  by (simp add: parse_decimal_def parse_int_part_def digits_value_def)

lemma parse_decimal_minus:
  assumes "parse_decimal t = Some ((False, D, p), rest)"
  shows "parse_decimal (0x2D # t) = Some ((True, D, p), rest)"
proof -
  have "(case t of [] \<Rightarrow> False | c # cs \<Rightarrow> c = 0x2D) = False"
    using assms by (auto simp: parse_decimal_def Let_def split: list.splits option.splits)
  then show ?thesis
    using assms by (auto simp: parse_decimal_def Let_def split: option.splits)
qed

lemma parse_number_toString:
  assumes "isFinite x" "x \<noteq> negative_zero" "delimited rest"
  shows "parse_number (Number_toString x @ rest) = Some (x, rest)"
proof (cases "biased_exponent x = 0 \<and> trailing_significand x = 0")
  case True
  then have x: "x = 0" using assms(2) by (intro positive_zero) simp_all
  from True have "Number_toString x = [0x30]" by (simp add: Number_toString_def ascii_def)
  moreover have "number_value False 0 0 = 0"
    by (simp add: number_value_def round_binary64_def binary64_of_def)
  ultimately show ?thesis
    using parse_decimal_zero[OF assms(3)] by (simp add: parse_number_def x)
next
  case False
  define e where "e = biased_exponent x"
  define f where "f = trailing_significand x"
  have e: "e < 2047" using assms(1) by (simp add: isFinite_def e_def)
  have f: "f < 2 ^ 52" unfolding f_def by (rule trailing_significand_less)
  from False have sg: "0 < significand e f" by (auto simp: significand_def e_def f_def)
  from shortest_digits_total[OF e f sg] obtain s n k where
    sd: "shortest_digits e f = Some (s, n, k)" and k: "1 \<le> k" "10 ^ (k - 1) \<le> s" "s < 10 ^ k"
    and r: "round_binary64 (of_nat s * 10 powi (n - int k)) = Fields e f"
    by blast
  from parse_decimal_layout[OF k assms(3), of n] obtain D p where
    pd: "parse_decimal (decimal_layout s n k @ rest) = Some ((False, D, p), rest)"
    and v: "(of_nat D :: rat) * 10 powi p = of_nat s * 10 powi (n - int k)"
    by blast
  have str: "Number_toString x = (if sign_bit x then [0x2D] else []) @ decimal_layout s n k"
    using False e sd by (auto simp: Number_toString_def Let_def e_def[symmetric] f_def[symmetric])
  have val: "number_value (sign_bit x) D p = x"
    unfolding number_value_def v r using binary64_fields[of x] by (simp add: e_def f_def)
  show ?thesis
  proof (cases "sign_bit x")
    case True
    from parse_decimal_minus[OF pd] val show ?thesis by (simp add: str True parse_number_def)
  next
    case False
    from pd val show ?thesis by (simp add: str False parse_number_def)
  qed
qed

subsection \<open>Values\<close>

lemma update_new_key: "k \<notin> fst ` set obj \<Longrightarrow> AList.update k v obj = obj @ [(k, v)]"
  by (induction obj) auto

lemma put_index_last:
  "\<forall>k' \<in> fst ` set obj. \<exists>j. array_index k' = Some j \<and> j < i \<Longrightarrow>
   put_index i k v obj = obj @ [(k, v)]"
  by (induction obj) auto

lemma CreateDataProperty_last:
  assumes "\<forall>k' \<in> fst ` set obj. key_before k' k"
  shows "CreateDataProperty obj (k, v) = obj @ [(k, v)]"
proof (cases "array_index k")
  case None
  from assms have "k \<notin> fst ` set obj" by (auto simp: key_before_def)
  with None show ?thesis by (simp add: CreateDataProperty_def update_new_key)
next
  case (Some i)
  with assms have "\<forall>k' \<in> fst ` set obj. \<exists>j. array_index k' = Some j \<and> j < i"
    by (auto simp: key_before_def split: option.splits)
  with Some show ?thesis by (simp add: CreateDataProperty_def put_index_last)
qed

lemma foldl_CreateDataProperty:
  "own_property_order (acc @ ms) \<Longrightarrow> foldl CreateDataProperty acc ms = acc @ ms"
proof (induction ms arbitrary: acc)
  case Nil
  then show ?case by simp
next
  case (Cons m ms)
  obtain k v where m: "m = (k, v)" by (cases m)
  from Cons.prems have "\<forall>k' \<in> fst ` set acc. key_before k' k"
    by (auto simp: own_property_order_def sorted_wrt_append m)
  then have "CreateDataProperty acc m = acc @ [m]"
    unfolding m by (rule CreateDataProperty_last)
  moreover from Cons.prems have "own_property_order ((acc @ [m]) @ ms)" by simp
  ultimately show ?case using Cons.IH[of "acc @ [m]"] by simp
qed

lemma object_of_members_ordered:
  "own_property_order ms \<Longrightarrow> object_of_members ms = ms"
  using foldl_CreateDataProperty[of "[]" ms] by (simp add: object_of_members_def)

lemma skip_ws_not_ws: "\<not> is_ws c \<Longrightarrow> skip_ws (c # cs) = c # cs"
  by (simp add: skip_ws_def)

lemma value_start_not_ws: "value_start c \<Longrightarrow> \<not> is_ws c"
  by (auto simp: value_start_def is_ws_def is_digit_def)

lemma value_start_not_close: "value_start c \<Longrightarrow> c \<noteq> 0x5D \<and> c \<noteq> 0x7D"
  by (auto simp: value_start_def is_digit_def)

lemma ascii_null: "ascii ''null'' = [0x6E, 0x75, 0x6C, 0x6C]"
  by (simp add: ascii_def)

lemma ascii_true: "ascii ''true'' = [0x74, 0x72, 0x75, 0x65]"
  by (simp add: ascii_def)

lemma ascii_false: "ascii ''false'' = [0x66, 0x61, 0x6C, 0x73, 0x65]"
  by (simp add: ascii_def)

lemma parse_decimal_start:
  assumes "parse_decimal t = Some ((False, D, p), rest)"
  shows "\<exists>c cs. t = c # cs \<and> is_digit c"
proof -
  have neg: "(case t of [] \<Rightarrow> False | c # cs \<Rightarrow> c = 0x2D) = False"
    using assms by (auto simp: parse_decimal_def Let_def split: list.splits option.splits)
  with assms obtain ip s2 where "parse_int_part t = Some (ip, s2)"
    by (auto simp: parse_decimal_def Let_def split: option.splits)
  then show ?thesis
    by (cases t) (auto simp: parse_int_part_def is_digit_def split: if_splits)
qed

lemma Number_toString_start:
  assumes "isFinite x"
  shows "\<exists>c cs. Number_toString x = c # cs \<and> (c = 0x2D \<or> is_digit c)"
proof (cases "biased_exponent x = 0 \<and> trailing_significand x = 0")
  case True
  then have "Number_toString x = [0x30]" by (simp add: Number_toString_def ascii_def)
  then show ?thesis by (simp add: is_digit_def)
next
  case False
  define e where "e = biased_exponent x"
  define f where "f = trailing_significand x"
  have e: "e < 2047" using assms by (simp add: isFinite_def e_def)
  have f: "f < 2 ^ 52" unfolding f_def by (rule trailing_significand_less)
  from False have sg: "0 < significand e f" by (auto simp: significand_def e_def f_def)
  from shortest_digits_total[OF e f sg] obtain s n k where
    sd: "shortest_digits e f = Some (s, n, k)" and k: "1 \<le> k" "10 ^ (k - 1) \<le> s" "s < 10 ^ k"
    by blast
  have "delimited []" by (simp add: delimited_def)
  from parse_decimal_layout[OF k this, of n] obtain D p where
    "parse_decimal (decimal_layout s n k @ []) = Some ((False, D, p), [])"
    by blast
  then obtain c cs where l: "decimal_layout s n k = c # cs" "is_digit c"
    using parse_decimal_start[of "decimal_layout s n k" D p "[]"] by auto
  have "Number_toString x = (if sign_bit x then [0x2D] else []) @ decimal_layout s n k"
    using False e sd by (auto simp: Number_toString_def Let_def e_def[symmetric] f_def[symmetric])
  with l show ?thesis by (cases "sign_bit x") simp_all
qed

lemma serialize_start:
  "\<exists>c cs. SerializeJSONProperty v = c # cs \<and> value_start c"
proof (cases v)
  case (JNum x)
  show ?thesis
  proof (cases "isFinite x")
    case True
    from Number_toString_start[OF this] JNum True show ?thesis
      by (auto simp: value_start_def)
  next
    case False
    with JNum show ?thesis by (simp add: ascii_null value_start_def)
  qed
qed (simp_all add: value_start_def QuoteJSONString_def ascii_null ascii_true ascii_false)

lemma parse_value_string:
  "parse_value (Suc n) (QuoteJSONString s @ rest) = Some (JStr s, rest)"
  by (simp add: QuoteJSONString_def skip_ws_def is_ws_def parse_chars_quoted)

lemma parse_value_null: "parse_value (Suc n) (ascii ''null'' @ rest) = Some (JNull, rest)"
  by (simp add: ascii_null skip_ws_def is_ws_def parse_literal_def)

lemma parse_value_true: "parse_value (Suc n) (ascii ''true'' @ rest) = Some (JBool True, rest)"
  by (simp add: ascii_null ascii_true skip_ws_def is_ws_def parse_literal_def)

lemma parse_value_false: "parse_value (Suc n) (ascii ''false'' @ rest) = Some (JBool False, rest)"
  by (simp add: ascii_null ascii_true ascii_false skip_ws_def is_ws_def parse_literal_def)

lemma parse_value_number:
  assumes "isFinite x" "x \<noteq> negative_zero" "delimited rest"
  shows "parse_value (Suc n) (Number_toString x @ rest) = Some (JNum x, rest)"
proof -
  obtain c cs where s: "Number_toString x = c # cs" and c: "c = 0x2D \<or> is_digit c"
    using Number_toString_start[OF assms(1)] by blast
  from c have nw: "\<not> is_ws c" and "c \<noteq> 0x22" "c \<noteq> 0x5B" "c \<noteq> 0x7B"
    "c \<noteq> 0x6E" "c \<noteq> 0x74" "c \<noteq> 0x66"
    by (auto simp: is_ws_def is_digit_def)
  moreover have "parse_number (c # cs @ rest) = Some (x, rest)"
    using parse_number_toString[OF assms] by (simp add: s)
  ultimately show ?thesis by (simp add: s skip_ws_not_ws)
qed

lemma array_start:
  "vs \<noteq> [] \<Longrightarrow> \<exists>c cs. SerializeJSONArray vs = c # cs \<and> value_start c"
proof (cases vs)
  case Nil
  assume "vs \<noteq> []"
  with Nil show ?thesis by simp
next
  case (Cons v ws)
  obtain c cs where "SerializeJSONProperty v = c # cs" "value_start c"
    using serialize_start by blast
  with Cons show ?thesis by (cases ws) simp_all
qed

lemma object_start:
  "ms \<noteq> [] \<Longrightarrow> \<exists>cs. SerializeJSONObject ms = 0x22 # cs"
proof (cases ms)
  case Nil
  assume "ms \<noteq> []"
  with Nil show ?thesis by simp
next
  case (Cons m ws)
  then show ?thesis by (cases m; cases ws) (simp_all add: QuoteJSONString_def)
qed

lemma parse_value_empty_array: "parse_value (Suc n) (0x5B # [] @ [0x5D] @ rest) = Some (JArr [], rest)"
  by (simp add: skip_ws_def is_ws_def)

lemma parse_value_empty_object: "parse_value (Suc n) (0x7B # [] @ [0x7D] @ rest) = Some (JObj [], rest)"
  by (simp add: skip_ws_def is_ws_def)

lemma parse_value_array:
  assumes "vs \<noteq> []"
    and "parse_elements n (SerializeJSONArray vs @ 0x5D # rest) = Some (vs, rest)"
  shows "parse_value (Suc n) (0x5B # SerializeJSONArray vs @ [0x5D] @ rest) = Some (JArr vs, rest)"
proof -
  obtain c cs where s: "SerializeJSONArray vs = c # cs" and c: "value_start c"
    using array_start[OF assms(1)] by blast
  from c have "\<not> is_ws c" "c \<noteq> 0x5D"
    using value_start_not_ws value_start_not_close by blast+
  moreover have "\<not> is_ws 0x5B" by (simp add: is_ws_def)
  ultimately show ?thesis using assms(2) by (simp add: s skip_ws_not_ws)
qed

lemma parse_value_object:
  assumes "ms \<noteq> []" "own_property_order ms"
    and "parse_members n (SerializeJSONObject ms @ 0x7D # rest) = Some (ms, rest)"
  shows "parse_value (Suc n) (0x7B # SerializeJSONObject ms @ [0x7D] @ rest) = Some (JObj ms, rest)"
proof -
  obtain cs where s: "SerializeJSONObject ms = 0x22 # cs"
    using object_start[OF assms(1)] by blast
  have "\<not> is_ws 0x22" "\<not> is_ws 0x7B" by (simp_all add: is_ws_def)
  then show ?thesis
    using assms(3) by (simp add: s skip_ws_not_ws object_of_members_ordered[OF assms(2)])
qed

lemma parse_elements_last:
  assumes "parse_value n (SerializeJSONProperty v @ 0x5D # rest) = Some (v, 0x5D # rest)"
  shows "parse_elements (Suc n) (SerializeJSONProperty v @ 0x5D # rest) = Some ([v], rest)"
  using assms by (simp add: skip_ws_def is_ws_def)

lemma parse_elements_more:
  assumes "parse_value n (SerializeJSONProperty v @ 0x2C # tail) = Some (v, 0x2C # tail)"
    and "parse_elements n tail = Some (vs, rest)"
  shows "parse_elements (Suc n) (SerializeJSONProperty v @ 0x2C # tail) = Some (v # vs, rest)"
  using assms by (simp add: skip_ws_def is_ws_def cons_result_def)

lemma parse_members_last:
  assumes "parse_value n (SerializeJSONProperty v @ 0x7D # rest) = Some (v, 0x7D # rest)"
  shows "parse_members (Suc n) (QuoteJSONString k @ 0x3A # SerializeJSONProperty v @ 0x7D # rest)
      = Some ([(k, v)], rest)"
  using assms by (simp add: QuoteJSONString_def skip_ws_def is_ws_def parse_chars_quoted)

lemma parse_members_more:
  assumes "parse_value n (SerializeJSONProperty v @ 0x2C # tail) = Some (v, 0x2C # tail)"
    and "parse_members n tail = Some (ms, rest)"
  shows "parse_members (Suc n) (QuoteJSONString k @ 0x3A # SerializeJSONProperty v @ 0x2C # tail)
      = Some ((k, v) # ms, rest)"
  using assms by (simp add: QuoteJSONString_def skip_ws_def is_ws_def parse_chars_quoted cons_result_def)

lemma serialize_length: "0 < length (SerializeJSONProperty v)"
  using serialize_start[of v] by auto

lemma parse_serialized:
  "json_exact v \<Longrightarrow> delimited rest \<Longrightarrow> length (SerializeJSONProperty v) < n \<Longrightarrow>
     parse_value n (SerializeJSONProperty v @ rest) = Some (v, rest)"
  "vs \<noteq> [] \<Longrightarrow> json_exact_list vs \<Longrightarrow> length (SerializeJSONArray vs) + 1 < n \<Longrightarrow>
     parse_elements n (SerializeJSONArray vs @ 0x5D # rest) = Some (vs, rest)"
  "ms \<noteq> [] \<Longrightarrow> json_exact_members ms \<Longrightarrow> length (SerializeJSONObject ms) + 1 < n \<Longrightarrow>
     parse_members n (SerializeJSONObject ms @ 0x7D # rest) = Some (ms, rest)"
proof (induction v and vs and ms arbitrary: n rest and n rest and n rest
    rule: SerializeJSONProperty_SerializeJSONArray_SerializeJSONObject.induct)
  case 1
  then obtain n' where "n = Suc n'" by (cases n) auto
  then show ?case using parse_value_null[of n' rest] by simp
next
  case (2 b)
  then obtain n' where "n = Suc n'" by (cases n) auto
  then show ?case using parse_value_true[of n' rest] parse_value_false[of n' rest] by simp
next
  case (3 x)
  then obtain n' where n: "n = Suc n'" by (cases n) auto
  from "3.prems"(1) have x: "isFinite x" "x \<noteq> negative_zero" by simp_all
  from parse_value_number[OF x "3.prems"(2), of n'] show ?case by (simp add: n x)
next
  case (4 s)
  then obtain n' where "n = Suc n'" by (cases n) auto
  then show ?case using parse_value_string[of n' s rest] by simp
next
  case (5 vs)
  then obtain n' where n: "n = Suc n'" by (cases n) auto
  show ?case
  proof (cases "vs = []")
    case True
    then show ?thesis using parse_value_empty_array[of n' rest] by (simp add: n)
  next
    case False
    from "5.prems" have "json_exact_list vs" "length (SerializeJSONArray vs) + 1 < n'"
      by (simp_all add: n)
    from "5.IH"[OF False this] have "parse_elements n' (SerializeJSONArray vs @ 0x5D # rest) = Some (vs, rest)" .
    from parse_value_array[OF False this] show ?thesis by (simp add: n)
  qed
next
  case (6 ms)
  then obtain n' where n: "n = Suc n'" by (cases n) auto
  show ?case
  proof (cases "ms = []")
    case True
    then show ?thesis using parse_value_empty_object[of n' rest] by (simp add: n)
  next
    case False
    from "6.prems" have o: "own_property_order ms" and "json_exact_members ms"
      "length (SerializeJSONObject ms) + 1 < n'"
      by (simp_all add: n)
    from "6.IH"[OF False this(2,3)] have "parse_members n' (SerializeJSONObject ms @ 0x7D # rest) = Some (ms, rest)" .
    from parse_value_object[OF False o this] show ?thesis by (simp add: n)
  qed
next
  case 7
  then show ?case by simp
next
  case (8 v)
  then obtain n' where n: "n = Suc n'" by (cases n) auto
  from "8.prems" have "json_exact v" "length (SerializeJSONProperty v) < n'"
    by (simp_all add: n)
  moreover have "delimited (0x5D # rest)" by (simp add: delimited_def)
  ultimately have "parse_value n' (SerializeJSONProperty v @ 0x5D # rest) = Some (v, 0x5D # rest)"
    using "8.IH" by blast
  from parse_elements_last[OF this] show ?case by (simp add: n)
next
  case (9 v w vs)
  then obtain n' where n: "n = Suc n'" by (cases n) auto
  let ?tail = "SerializeJSONArray (w # vs) @ 0x5D # rest"
  from "9.prems" have "json_exact v" "length (SerializeJSONProperty v) < n'"
    by (simp_all add: n)
  moreover have "delimited (0x2C # ?tail)" by (simp add: delimited_def)
  ultimately have a: "parse_value n' (SerializeJSONProperty v @ 0x2C # ?tail) = Some (v, 0x2C # ?tail)"
    using "9.IH"(1) by blast
  from "9.prems" serialize_length[of v] have "json_exact_list (w # vs)"
    "length (SerializeJSONArray (w # vs)) + 1 < n'"
    by (simp_all add: n)
  then have b: "parse_elements n' ?tail = Some (w # vs, rest)"
    using "9.IH"(2) by blast
  from parse_elements_more[OF a b] show ?case by (simp add: n)
next
  case 10
  then show ?case by simp
next
  case (11 k v)
  then obtain n' where n: "n = Suc n'" by (cases n) auto
  from "11.prems" have "json_exact v" "length (SerializeJSONProperty v) < n'"
    by (simp_all add: n)
  moreover have "delimited (0x7D # rest)" by (simp add: delimited_def)
  ultimately have "parse_value n' (SerializeJSONProperty v @ 0x7D # rest) = Some (v, 0x7D # rest)"
    using "11.IH" by blast
  from parse_members_last[OF this, of k] show ?case by (simp add: n)
next
  case (12 k v m ms)
  then obtain n' where n: "n = Suc n'" by (cases n) auto
  let ?tail = "SerializeJSONObject (m # ms) @ 0x7D # rest"
  from "12.prems" have "json_exact v" "length (SerializeJSONProperty v) < n'"
    by (simp_all add: n)
  moreover have "delimited (0x2C # ?tail)" by (simp add: delimited_def)
  ultimately have a: "parse_value n' (SerializeJSONProperty v @ 0x2C # ?tail) = Some (v, 0x2C # ?tail)"
    using "12.IH"(1) by blast
  from "12.prems" have "json_exact_members (m # ms)"
    "length (SerializeJSONObject (m # ms)) + 1 < n'"
    by (simp_all add: n)
  then have b: "parse_members n' ?tail = Some (m # ms, rest)"
    using "12.IH"(2) by blast
  from parse_members_more[OF a b, of k] show ?case by (simp add: n)
qed

lemma JSON_parse_serialized:
  "json_exact v \<Longrightarrow> JSON_parse (SerializeJSONProperty v) = Some v"
proof -
  assume "json_exact v"
  moreover have "delimited []" by (simp add: delimited_def)
  ultimately have "parse_value (Suc (length (SerializeJSONProperty v))) (SerializeJSONProperty v @ []) = Some (v, [])"
    by (intro parse_serialized(1)) simp_all
  then show ?thesis by (simp add: JSON_parse_def skip_ws_def)
qed


lemma ascii_keys:
  "ascii ''gclid'' = [0x67, 0x63, 0x6C, 0x69, 0x64]"
  "ascii ''cost'' = [0x63, 0x6F, 0x73, 0x74]"
  "ascii ''clicks'' = [0x63, 0x6C, 0x69, 0x63, 0x6B, 0x73]"
  by (simp_all add: ascii_def)

lemma example_keys_ordered:
  "key_before (ascii ''gclid'') (ascii ''cost'')"
  "key_before (ascii ''gclid'') (ascii ''clicks'')"
  by (simp_all add: ascii_keys key_before_def array_index_def is_digit_def)


section \<open>The steps of a run\<close>

lemma fetchAllRows_cases:
  obtains (connect_error) err where "sf_connect w (snowflake_options env) = Some err"
      "fetchAllRows env w =
         ([Invoke FetchAllRows, SfCreateConnection (snowflake_options env), SfConnect,
           PromiseReject err], Inl err)"
  | (query_error) err where "sf_connect w (snowflake_options env) = None"
      "sf_execute w (''SELECT * FROM '' @ TABLE_NAME) = Inl err"
      "fetchAllRows env w =
         ([Invoke FetchAllRows, SfCreateConnection (snowflake_options env), SfConnect,
           SfExecute (''SELECT * FROM '' @ TABLE_NAME), SfDestroy, PromiseReject err], Inl err)"
  | (resolved) rows where "sf_connect w (snowflake_options env) = None"
      "sf_execute w (''SELECT * FROM '' @ TABLE_NAME) = Inr rows"
      "fetchAllRows env w =
         ([Invoke FetchAllRows, SfCreateConnection (snowflake_options env), SfConnect,
           SfExecute (''SELECT * FROM '' @ TABLE_NAME), SfDestroy, PromiseResolve rows], Inr rows)"
proof (cases "sf_connect w (snowflake_options env)")
  case (Some err)
  then show ?thesis using connect_error by (simp add: fetchAllRows_def Let_def)
next
  case None
  show ?thesis
  proof (cases "sf_execute w (''SELECT * FROM '' @ TABLE_NAME)")
    case (Inl err)
    with None show ?thesis using query_error by (simp add: fetchAllRows_def Let_def)
  next
    case (Inr rows)
    with None show ?thesis using resolved by (simp add: fetchAllRows_def Let_def)
  qed
qed

lemma fetchAllRows_quiet:
  "s3_calls (fst (fetchAllRows env w)) = [] \<and> ddb_calls (fst (fetchAllRows env w)) = [] \<and>
   log_lines (fst (fetchAllRows env w)) = [] \<and>
   [c. SetExitCode c \<leftarrow> fst (fetchAllRows env w)] = [] \<and>
   Invoke DumpToS3 \<notin> set (fst (fetchAllRows env w)) \<and>
   Invoke WriteToDynamoDB \<notin> set (fst (fetchAllRows env w))"
  by (cases rule: fetchAllRows_cases[of w env]) (simp_all add: s3_calls_def ddb_calls_def log_lines_def)

lemma writeToDynamoDB_trace:
  "\<exists>n. fst (writeToDynamoDB env w rows) =
     Invoke WriteToDynamoDB # map (\<lambda>b. DdbBatchWrite (batchWrite_params env b)) (take n (make_batches rows))"
proof -
  obtain n where "fst (write_batches env w [] (make_batches rows)) =
      map (\<lambda>b. DdbBatchWrite (batchWrite_params env b)) (take n (make_batches rows))"
    using write_batches_prefix by blast
  then have "fst (writeToDynamoDB env w rows) =
     Invoke WriteToDynamoDB # map (\<lambda>b. DdbBatchWrite (batchWrite_params env b)) (take n (make_batches rows))"
    by (cases "write_batches env w [] (make_batches rows)") (simp add: writeToDynamoDB_def)
  then show ?thesis by blast
qed

lemma writeToDynamoDB_quiet:
  "s3_calls (fst (writeToDynamoDB env w rows)) = [] \<and>
   log_lines (fst (writeToDynamoDB env w rows)) = [] \<and>
   [c. SetExitCode c \<leftarrow> fst (writeToDynamoDB env w rows)] = []"
proof -
  obtain n where n: "fst (writeToDynamoDB env w rows) =
     Invoke WriteToDynamoDB # map (\<lambda>b. DdbBatchWrite (batchWrite_params env b)) (take n (make_batches rows))"
    using writeToDynamoDB_trace by blast
  have "[p. S3PutObject p \<leftarrow> map (\<lambda>b. DdbBatchWrite (f b)) bs] = []"
       "[s. ConsoleLog s \<leftarrow> map (\<lambda>b. DdbBatchWrite (f b)) bs] = []"
       "[c. SetExitCode c \<leftarrow> map (\<lambda>b. DdbBatchWrite (f b)) bs] = []" for f bs
    by (induction bs) simp_all
  then show ?thesis by (simp add: n s3_calls_def log_lines_def)
qed

lemma dumpToS3_trace:
  "fst (dumpToS3 env w rows key) =
     [Invoke DumpToS3, S3PutObject \<lparr>Bucket = S3_BUCKET env, Key = key, Body = JSON_stringify rows\<rparr>]"
  by (simp add: dumpToS3_def Let_def split: option.splits)

lemma dumpToS3_result:
  "snd (dumpToS3 env w rows key) =
     (case s3_putObject w \<lparr>Bucket = S3_BUCKET env, Key = key, Body = JSON_stringify rows\<rparr> of
        Some err \<Rightarrow> Inl err | None \<Rightarrow> Inr ())"
  by (simp add: dumpToS3_def Let_def split: option.splits)

lemma exit_status_catch:
  "exit_status (tr @ main_catch err) = 1"
  by (simp add: exit_status_def main_catch_def)

lemma main_fetch_failed:
  "fetchAllRows env w = (t, Inl err) \<Longrightarrow> main env w = t @ main_catch err"
  by (simp add: main_def)

lemma main_dump_failed:
  "fetchAllRows env w = (t1, Inr rows) \<Longrightarrow>
   dumpToS3 env w rows (S3_KEY_PREFIX env @ ''initial_load.json'') = (t2, Inl err) \<Longrightarrow>
   main env w = t1 @ t2 @ main_catch err"
  by (simp add: main_def)

lemma main_write_failed:
  "fetchAllRows env w = (t1, Inr rows) \<Longrightarrow>
   dumpToS3 env w rows (S3_KEY_PREFIX env @ ''initial_load.json'') = (t2, Inr u) \<Longrightarrow>
   writeToDynamoDB env w rows = (t3, Inl err) \<Longrightarrow>
   main env w = t1 @ t2 @ t3 @ main_catch err"
  by (simp add: main_def)

lemma main_succeeded:
  "fetchAllRows env w = (t1, Inr rows) \<Longrightarrow>
   dumpToS3 env w rows (S3_KEY_PREFIX env @ ''initial_load.json'') = (t2, Inr u) \<Longrightarrow>
   writeToDynamoDB env w rows = (t3, Inr u') \<Longrightarrow>
   main env w = t1 @ t2 @ t3 @
     [ConsoleLog (''Wrote '' @ digits (length rows) @ '' records to S3 and DynamoDB'')]"
  by (simp add: main_def)

lemma calls_append:
  "s3_calls (a @ b) = s3_calls a @ s3_calls b"
  "ddb_calls (a @ b) = ddb_calls a @ ddb_calls b"
  "log_lines (a @ b) = log_lines a @ log_lines b"
  by (simp_all add: s3_calls_def ddb_calls_def log_lines_def)

lemma main_catch_quiet:
  "s3_calls (main_catch err) = []" "ddb_calls (main_catch err) = []" "log_lines (main_catch err) = []"
  "Invoke f \<notin> set (main_catch err)"
  by (simp_all add: s3_calls_def ddb_calls_def log_lines_def main_catch_def)

lemma dumpToS3_quiet:
  "ddb_calls (fst (dumpToS3 env w rows key)) = []" "log_lines (fst (dumpToS3 env w rows key)) = []"
  "Invoke WriteToDynamoDB \<notin> set (fst (dumpToS3 env w rows key))"
  by (simp_all add: dumpToS3_trace ddb_calls_def log_lines_def)

lemma main_s3_calls:
  assumes "snd (fetchAllRows env w) = Inr rows"
  shows "s3_calls (main env w) =
    [\<lparr>Bucket = S3_BUCKET env, Key = S3_KEY_PREFIX env @ ''initial_load.json'',
      Body = JSON_stringify rows\<rparr>]"
proof -
  let ?key = "S3_KEY_PREFIX env @ ''initial_load.json''"
  let ?t1 = "fst (fetchAllRows env w)" and ?t2 = "fst (dumpToS3 env w rows ?key)"
  let ?t3 = "fst (writeToDynamoDB env w rows)"
  from assms have f: "fetchAllRows env w = (?t1, Inr rows)" by (simp add: prod_eq_iff)
  have "\<exists>tl. main env w = ?t1 @ ?t2 @ tl \<and> s3_calls tl = []"
  proof (cases "snd (dumpToS3 env w rows ?key)")
    case (Inl err)
    then have "dumpToS3 env w rows ?key = (?t2, Inl err)" by (simp add: prod_eq_iff)
    from main_dump_failed[OF f this] have "main env w = ?t1 @ ?t2 @ main_catch err" .
    moreover have "s3_calls (main_catch err) = []" by (rule main_catch_quiet)
    ultimately show ?thesis by blast
  next
    case (Inr u)
    then have d: "dumpToS3 env w rows ?key = (?t2, Inr u)" by (simp add: prod_eq_iff)
    have q: "s3_calls ?t3 = []" using writeToDynamoDB_quiet[of env w rows] by blast
    show ?thesis
    proof (cases "snd (writeToDynamoDB env w rows)")
      case (Inl err)
      then have "writeToDynamoDB env w rows = (?t3, Inl err)" by (simp add: prod_eq_iff)
      from main_write_failed[OF f d this]
      have "main env w = ?t1 @ ?t2 @ (?t3 @ main_catch err)" by simp
      moreover have "s3_calls (?t3 @ main_catch err) = []"
        by (simp only: calls_append q main_catch_quiet append_Nil)
      ultimately show ?thesis by blast
    next
      case (Inr u')
      let ?log = "[ConsoleLog (''Wrote '' @ digits (length rows) @ '' records to S3 and DynamoDB'')]"
      from Inr have "writeToDynamoDB env w rows = (?t3, Inr u')" by (simp add: prod_eq_iff)
      from main_succeeded[OF f d this]
      have "main env w = ?t1 @ ?t2 @ (?t3 @ ?log)" by simp
      moreover have "s3_calls ?log = []" by (simp add: s3_calls_def)
      then have "s3_calls (?t3 @ ?log) = []"
        by (simp only: calls_append q append_Nil)
      ultimately show ?thesis by blast
    qed
  qed
  then obtain tl where "main env w = ?t1 @ ?t2 @ tl" "s3_calls tl = []" by blast
  with fetchAllRows_quiet[of env w] show ?thesis
    by (simp add: calls_append dumpToS3_trace) (simp add: s3_calls_def)
qed

lemma dumpToS3_s3_calls:
  "s3_calls (fst (dumpToS3 env w rows key)) =
     [\<lparr>Bucket = S3_BUCKET env, Key = key, Body = JSON_stringify rows\<rparr>]"
  by (simp add: dumpToS3_trace s3_calls_def)

section \<open>Claims about the run\<close>

text \<open>
  C3. If the connection or the query fails, \<open>fetchAllRows\<close> rejects with that error and
  \<open>main\<close> goes straight to its \<open>catch\<close> block: neither \<open>dumpToS3\<close> nor
  \<open>writeToDynamoDB\<close> is entered, no request reaches the object store or the key-value
  store, no success line is logged, the error is logged and the exit status is 1.
\<close>

theorem source_failure_aborts:
  assumes "sf_connect w (snowflake_options env) = Some err \<or>
           (sf_connect w (snowflake_options env) = None \<and>
            sf_execute w (''SELECT * FROM '' @ TABLE_NAME) = Inl err)"
  shows "snd (fetchAllRows env w) = Inl err \<and>
         main env w = fst (fetchAllRows env w) @ [ConsoleError err, SetExitCode 1] \<and>
         Invoke DumpToS3 \<notin> set (main env w) \<and> s3_calls (main env w) = [] \<and>
         Invoke WriteToDynamoDB \<notin> set (main env w) \<and> ddb_calls (main env w) = [] \<and>
         log_lines (main env w) = [] \<and>
         exit_status (main env w) = 1"
proof -
  have r: "snd (fetchAllRows env w) = Inl err"
    using assms by (cases rule: fetchAllRows_cases[of w env]) auto
  then have m: "main env w = fst (fetchAllRows env w) @ main_catch err"
    by (intro main_fetch_failed) (simp add: prod_eq_iff)
  note q = fetchAllRows_quiet[of env w]
  show ?thesis
    using r q by (simp add: m calls_append main_catch_quiet exit_status_catch) (simp add: main_catch_def)
qed

theorem source_failure_aborts_witness:
  "sf_connect world_connect_fails (snowflake_options env0) = Some (Error ''connect failed'') \<and>
   exit_status (main env0 world_connect_fails) = 1 \<and>
   s3_calls (main env0 world_connect_fails) = [] \<and>
   sf_connect world_query_fails (snowflake_options env0) = None \<and>
   sf_execute world_query_fails (''SELECT * FROM '' @ TABLE_NAME) = Inl (Error ''query failed'') \<and>
   exit_status (main env0 world_query_fails) = 1 \<and>
   ddb_calls (main env0 world_query_fails) = []"
proof -
  have c: "sf_connect world_connect_fails (snowflake_options env0) = Some (Error ''connect failed'')"
    by (simp add: world_connect_fails_def)
  have q: "sf_connect world_query_fails (snowflake_options env0) = None \<and>
      sf_execute world_query_fails (''SELECT * FROM '' @ TABLE_NAME) = Inl (Error ''query failed'')"
    by (simp add: world_query_fails_def world_ok_def)
  from source_failure_aborts[of world_connect_fails env0 "Error ''connect failed''"] c
    source_failure_aborts[of world_query_fails env0 "Error ''query failed''"] q
  show ?thesis by blast
qed

text \<open>
  C4. If the object store rejects the archive write, \<open>main\<close> goes to its \<open>catch\<close>
  block: \<open>writeToDynamoDB\<close> is not entered, no request reaches the key-value store,
  no success line is logged and the exit status is 1. The same holds for the first error
  of any step: the trace of the run is the trace up to the failing step followed by the
  \<open>catch\<close> block, which logs the error and sets exit code 1.
\<close>

theorem archive_failure_aborts:
  "(fetchAllRows env w = (t1, Inr rows) \<and>
    s3_putObject w \<lparr>Bucket = S3_BUCKET env, Key = S3_KEY_PREFIX env @ ''initial_load.json'',
                    Body = JSON_stringify rows\<rparr> = Some err \<longrightarrow>
      main env w = t1 @ fst (dumpToS3 env w rows (S3_KEY_PREFIX env @ ''initial_load.json'')) @
                   [ConsoleError err, SetExitCode 1] \<and>
      Invoke WriteToDynamoDB \<notin> set (main env w) \<and> ddb_calls (main env w) = [] \<and>
      log_lines (main env w) = [] \<and> exit_status (main env w) = 1) \<and>
   (fetchAllRows env w = (t1, Inl err) \<longrightarrow>
      main env w = t1 @ [ConsoleError err, SetExitCode 1] \<and>
      log_lines (main env w) = [] \<and> exit_status (main env w) = 1) \<and>
   (fetchAllRows env w = (t1, Inr rows) \<and>
    dumpToS3 env w rows (S3_KEY_PREFIX env @ ''initial_load.json'') = (t2, Inr ()) \<and>
    writeToDynamoDB env w rows = (t3, Inl err) \<longrightarrow>
      main env w = t1 @ t2 @ t3 @ [ConsoleError err, SetExitCode 1] \<and>
      log_lines (main env w) = [] \<and> exit_status (main env w) = 1)"
proof (intro conjI impI)
  assume a: "fetchAllRows env w = (t1, Inr rows) \<and>
    s3_putObject w \<lparr>Bucket = S3_BUCKET env, Key = S3_KEY_PREFIX env @ ''initial_load.json'',
                    Body = JSON_stringify rows\<rparr> = Some err"
  let ?key = "S3_KEY_PREFIX env @ ''initial_load.json''"
  from a have d: "dumpToS3 env w rows ?key = (fst (dumpToS3 env w rows ?key), Inl err)"
    by (simp add: prod_eq_iff dumpToS3_result)
  from a have m: "main env w = t1 @ fst (dumpToS3 env w rows ?key) @ main_catch err"
    using main_dump_failed[OF _ d] by simp
  from a have t1: "t1 = fst (fetchAllRows env w)" by simp
  note q = fetchAllRows_quiet[of env w]
  show "main env w = t1 @ fst (dumpToS3 env w rows ?key) @ [ConsoleError err, SetExitCode 1]"
    using m by (simp add: main_catch_def)
  show "Invoke WriteToDynamoDB \<notin> set (main env w)"
    using q by (simp add: m t1 dumpToS3_quiet main_catch_quiet)
  show "ddb_calls (main env w) = []"
    using q by (simp add: m t1 calls_append main_catch_quiet dumpToS3_quiet)
  show "log_lines (main env w) = []"
    using q by (simp add: m t1 calls_append main_catch_quiet dumpToS3_quiet)
  show "exit_status (main env w) = 1"
    using exit_status_catch[of "t1 @ fst (dumpToS3 env w rows ?key)" err] by (simp add: m)
next
  assume a: "fetchAllRows env w = (t1, Inl err)"
  then have m: "main env w = t1 @ main_catch err" by (rule main_fetch_failed)
  from a have t1: "t1 = fst (fetchAllRows env w)" by simp
  note q = fetchAllRows_quiet[of env w]
  show "main env w = t1 @ [ConsoleError err, SetExitCode 1]"
    using m by (simp add: main_catch_def)
  show "log_lines (main env w) = []"
    using q by (simp add: m t1 calls_append main_catch_quiet)
  show "exit_status (main env w) = 1"
    by (simp add: m exit_status_catch)
next
  assume a: "fetchAllRows env w = (t1, Inr rows) \<and>
    dumpToS3 env w rows (S3_KEY_PREFIX env @ ''initial_load.json'') = (t2, Inr ()) \<and>
    writeToDynamoDB env w rows = (t3, Inl err)"
  then have m: "main env w = t1 @ t2 @ t3 @ main_catch err"
    using main_write_failed by blast
  from a have t: "t1 = fst (fetchAllRows env w)"
    "t2 = fst (dumpToS3 env w rows (S3_KEY_PREFIX env @ ''initial_load.json''))"
    "t3 = fst (writeToDynamoDB env w rows)" by simp_all
  note q = fetchAllRows_quiet[of env w] writeToDynamoDB_quiet[of env w rows]
  show "main env w = t1 @ t2 @ t3 @ [ConsoleError err, SetExitCode 1]"
    using m by (simp add: main_catch_def)
  show "log_lines (main env w) = []"
    using q by (simp add: m t calls_append main_catch_quiet dumpToS3_quiet)
  show "exit_status (main env w) = 1"
    using exit_status_catch[of "t1 @ t2 @ t3" err] by (simp add: m)
qed

theorem archive_failure_aborts_witness:
  "fetchAllRows env0 world_archive_fails =
     (fst (fetchAllRows env0 world_archive_fails), Inr [row0, row0]) \<and>
   s3_putObject world_archive_fails
     \<lparr>Bucket = S3_BUCKET env0, Key = S3_KEY_PREFIX env0 @ ''initial_load.json'',
      Body = JSON_stringify [row0, row0]\<rparr> = Some (Error ''access denied'') \<and>
   ddb_calls (main env0 world_archive_fails) = [] \<and>
   exit_status (main env0 world_archive_fails) = 1 \<and>
   snd (fetchAllRows env0 world_connect_fails) = Inl (Error ''connect failed'') \<and>
   exit_status (main env0 world_connect_fails) = 1 \<and>
   snd (fetchAllRows env0 world_index_fails) = Inr [row0, row0] \<and>
   snd (dumpToS3 env0 world_index_fails [row0, row0] (S3_KEY_PREFIX env0 @ ''initial_load.json'')) = Inr () \<and>
   snd (writeToDynamoDB env0 world_index_fails [row0, row0]) = Inl (Error ''throttled'') \<and>
   log_lines (main env0 world_index_fails) = [] \<and>
   exit_status (main env0 world_index_fails) = 1"
proof -
  let ?key = "S3_KEY_PREFIX env0 @ ''initial_load.json''"
  have f: "fetchAllRows env0 world_archive_fails =
     (fst (fetchAllRows env0 world_archive_fails), Inr [row0, row0])"
    by (simp add: fetchAllRows_def world_archive_fails_def world_ok_def Let_def)
  have p: "s3_putObject world_archive_fails
     \<lparr>Bucket = S3_BUCKET env0, Key = ?key, Body = JSON_stringify [row0, row0]\<rparr>
       = Some (Error ''access denied'')"
    by (simp add: world_archive_fails_def)
  have c: "fetchAllRows env0 world_connect_fails =
     (fst (fetchAllRows env0 world_connect_fails), Inl (Error ''connect failed''))"
    by (simp add: fetchAllRows_def world_connect_fails_def Let_def)
  have g: "fetchAllRows env0 world_index_fails =
     (fst (fetchAllRows env0 world_index_fails), Inr [row0, row0])"
    by (simp add: fetchAllRows_def world_index_fails_def world_ok_def Let_def)
  have d: "dumpToS3 env0 world_index_fails [row0, row0] ?key =
     (fst (dumpToS3 env0 world_index_fails [row0, row0] ?key), Inr ())"
    by (simp add: dumpToS3_def world_index_fails_def world_ok_def Let_def)
  have i: "writeToDynamoDB env0 world_index_fails [row0, row0] =
     (fst (writeToDynamoDB env0 world_index_fails [row0, row0]), Inl (Error ''throttled''))"
    by (simp add: writeToDynamoDB_def make_batches_def world_index_fails_def Let_def)
  note a = archive_failure_aborts[of env0 world_archive_fails
      "fst (fetchAllRows env0 world_archive_fails)" "[row0, row0]" "Error ''access denied''"]
  note b = archive_failure_aborts[of env0 world_connect_fails
      "fst (fetchAllRows env0 world_connect_fails)" "[]" "Error ''connect failed''"]
  note e = archive_failure_aborts[of env0 world_index_fails
      "fst (fetchAllRows env0 world_index_fails)" "[row0, row0]" "Error ''throttled''"
      "fst (dumpToS3 env0 world_index_fails [row0, row0] ?key)"
      "fst (writeToDynamoDB env0 world_index_fails [row0, row0])"]
  from a f p have 1: "ddb_calls (main env0 world_archive_fails) = []"
    "exit_status (main env0 world_archive_fails) = 1" by blast+
  from b c have 2: "exit_status (main env0 world_connect_fails) = 1" by blast
  from e g d i have 3: "log_lines (main env0 world_index_fails) = []"
    "exit_status (main env0 world_index_fails) = 1" by blast+
  have 4: "snd (fetchAllRows env0 world_connect_fails) = Inl (Error ''connect failed'')"
    "snd (fetchAllRows env0 world_index_fails) = Inr [row0, row0]"
    "snd (dumpToS3 env0 world_index_fails [row0, row0] ?key) = Inr ()"
    "snd (writeToDynamoDB env0 world_index_fails [row0, row0]) = Inl (Error ''throttled'')"
    using c g d i by (metis snd_conv)+
  from f p 1 2 3 4 show ?thesis by blast
qed

text \<open>
  C6, as stated, fails on the connection-error path: the connect callback rejects and
  returns, so the promise is settled and \<open>connection.destroy\<close> is never called.
\<close>

theorem fetchAllRows_connect_error_counterexample:
  "snd (fetchAllRows env0 world_connect_fails) = Inl (Error ''connect failed'') \<and>
   PromiseReject (Error ''connect failed'') \<in> set (fst (fetchAllRows env0 world_connect_fails)) \<and>
   SfDestroy \<notin> set (fst (fetchAllRows env0 world_connect_fails)) \<and>
   \<not> released_before_settled (fst (fetchAllRows env0 world_connect_fails))"
  by (simp add: fetchAllRows_def world_connect_fails_def released_before_settled_def Let_def)


text \<open>
  C6, amended. When the connection is established, on the query-error and the
  query-success path alike, \<open>connection.destroy\<close> is called exactly once and before the
  promise is settled, and the promise is settled exactly once. When connecting fails,
  the promise is rejected with the connection error and \<open>destroy\<close> is not called.
\<close>

theorem fetchAllRows_release:
  "(sf_connect w (snowflake_options env) = None \<longrightarrow>
      released_before_settled (fst (fetchAllRows env w)) \<and>
      count_list (fst (fetchAllRows env w)) SfDestroy = 1 \<and>
      length (filter is_settle (fst (fetchAllRows env w))) = 1) \<and>
   (sf_connect w (snowflake_options env) = Some err \<longrightarrow>
      fetchAllRows env w =
        ([Invoke FetchAllRows, SfCreateConnection (snowflake_options env), SfConnect,
          PromiseReject err], Inl err))"
  by (cases rule: fetchAllRows_cases[of w env]) (simp_all add: released_before_settled_def)


theorem fetchAllRows_release_witness:
  "sf_connect world_ok (snowflake_options env0) = None \<and>
   released_before_settled (fst (fetchAllRows env0 world_ok)) \<and>
   sf_connect world_query_fails (snowflake_options env0) = None \<and>
   snd (fetchAllRows env0 world_query_fails) = Inl (Error ''query failed'') \<and>
   released_before_settled (fst (fetchAllRows env0 world_query_fails)) \<and>
   sf_connect world_connect_fails (snowflake_options env0) = Some (Error ''connect failed'') \<and>
   fst (fetchAllRows env0 world_connect_fails) =
     [Invoke FetchAllRows, SfCreateConnection (snowflake_options env0), SfConnect,
      PromiseReject (Error ''connect failed'')]"
proof -
  have a: "sf_connect world_ok (snowflake_options env0) = None"
    and b: "sf_connect world_query_fails (snowflake_options env0) = None"
    and c: "sf_connect world_connect_fails (snowflake_options env0) = Some (Error ''connect failed'')"
    by (simp_all add: world_ok_def world_query_fails_def world_connect_fails_def)
  have q: "snd (fetchAllRows env0 world_query_fails) = Inl (Error ''query failed'')"
    by (simp add: fetchAllRows_def world_query_fails_def world_ok_def Let_def)
  from fetchAllRows_release[of world_ok env0] fetchAllRows_release[of world_query_fails env0]
    fetchAllRows_release[of world_connect_fails env0 "Error ''connect failed''"] a b c q
  show ?thesis by simp
qed

text \<open>
  C10. The default prefix \<open>click_performance/\<close> is used only when \<open>S3_KEY_PREFIX\<close> is
  not set; a prefix that is set, the empty string included, is used as it is, and the
  archive is written under the prefix followed by \<open>initial_load.json\<close>.
\<close>

theorem archive_key_prefix:
  "(env ''S3_KEY_PREFIX'' = None \<longrightarrow> S3_KEY_PREFIX env = ''click_performance/'') \<and>
   (env ''S3_KEY_PREFIX'' = Some p \<longrightarrow> S3_KEY_PREFIX env = p) \<and>
   (snd (fetchAllRows env w) = Inr rows \<longrightarrow>
      map Key (s3_calls (main env w)) = [S3_KEY_PREFIX env @ ''initial_load.json''])"
  by (simp add: S3_KEY_PREFIX_def main_s3_calls)


theorem archive_key_prefix_witness:
  "env_empty_prefix ''S3_KEY_PREFIX'' = Some [] \<and>
   snd (fetchAllRows env_empty_prefix world_ok) = Inr [row0, row0] \<and>
   map Key (s3_calls (main env_empty_prefix world_ok)) = [''initial_load.json''] \<and>
   env0 ''S3_KEY_PREFIX'' = None \<and>
   snd (fetchAllRows env0 world_ok) = Inr [row0, row0] \<and>
   map Key (s3_calls (main env0 world_ok)) = [''click_performance/initial_load.json'']"
proof -
  have e: "env_empty_prefix ''S3_KEY_PREFIX'' = Some []" "env0 ''S3_KEY_PREFIX'' = None"
    by (simp_all add: env_empty_prefix_def env0_def)
  have f: "snd (fetchAllRows env_empty_prefix world_ok) = Inr [row0, row0]"
    "snd (fetchAllRows env0 world_ok) = Inr [row0, row0]"
    by (simp_all add: fetchAllRows_def world_ok_def Let_def)
  from archive_key_prefix[of env_empty_prefix "[]" world_ok "[row0, row0]"]
    archive_key_prefix[of env0 "[]" world_ok "[row0, row0]"] e f
  show ?thesis by simp
qed

text \<open>
  C7. The archive request is a function of the configuration and the record sequence
  alone: whatever the services answer, \<open>dumpToS3\<close> issues one \<open>putObject\<close> whose bucket,
  key and body are fixed by them, so two runs that fetch the same records in the same
  order write the same body under the same key.
\<close>

theorem archive_deterministic:
  "s3_calls (fst (dumpToS3 env w1 rows key)) =
     [\<lparr>Bucket = S3_BUCKET env, Key = key, Body = JSON_stringify rows\<rparr>] \<and>
   s3_calls (fst (dumpToS3 env w2 rows key)) = s3_calls (fst (dumpToS3 env w1 rows key)) \<and>
   (snd (fetchAllRows env w1) = Inr rows \<and> snd (fetchAllRows env w2) = Inr rows \<longrightarrow>
      s3_calls (main env w2) = s3_calls (main env w1) \<and>
      s3_calls (main env w1) =
        [\<lparr>Bucket = S3_BUCKET env, Key = S3_KEY_PREFIX env @ ''initial_load.json'',
          Body = JSON_stringify rows\<rparr>])"
  by (simp add: main_s3_calls dumpToS3_s3_calls)


theorem archive_deterministic_witness:
  "snd (fetchAllRows env0 world_ok) = Inr [row0, row0] \<and>
   snd (fetchAllRows env0 world_archive_fails) = Inr [row0, row0] \<and>
   s3_calls (main env0 world_archive_fails) = s3_calls (main env0 world_ok) \<and>
   map Key (s3_calls (main env0 world_ok)) = [''click_performance/initial_load.json'']"
proof -
  have f: "snd (fetchAllRows env0 world_ok) = Inr [row0, row0]"
    "snd (fetchAllRows env0 world_archive_fails) = Inr [row0, row0]"
    by (simp_all add: fetchAllRows_def world_ok_def world_archive_fails_def Let_def)
  have k: "S3_KEY_PREFIX env0 = ''click_performance/''"
    by (simp add: S3_KEY_PREFIX_def env0_def)
  from archive_deterministic[of env0 world_ok "[row0, row0]" "[]" world_archive_fails] f k
  show ?thesis by simp
qed

section \<open>Claims about the archive\<close>


text \<open>
  The negative zero is the one finite Number that JSON text does not hold as it is:
  \<open>Number::toString\<close> writes both zeros as \<open>0\<close>, which reads as the positive zero.
\<close>

lemma negative_zero_written_as_zero:
  "JSON_parse (JSON_stringify [row_negative_zero]) =
     Some (JArr [JObj [(ascii ''gclid'', JStr (ascii ''c'')), (ascii ''cost'', JNum 0)]]) \<and>
   map_of row_negative_zero (ascii ''cost'') = Some (JNum negative_zero) \<and>
   negative_zero \<noteq> 0"
proof -
  let ?written = "JArr [JObj [(ascii ''gclid'', JStr (ascii ''c'')), (ascii ''cost'', JNum 0)]]"
  have z: "isFinite negative_zero" "isFinite 0"
    "Number_toString negative_zero = ascii ''0''" "Number_toString 0 = ascii ''0''"
    by (simp_all add: isFinite_def Number_toString_def biased_exponent_def
        trailing_significand_def negative_zero_def)
  have "JSON_stringify [row_negative_zero] = SerializeJSONProperty ?written"
    by (simp add: JSON_stringify_def row_negative_zero_def z)
  moreover have "json_exact ?written"
    by (simp add: own_property_order_def example_keys_ordered z negative_zero_def)
  ultimately have "JSON_parse (JSON_stringify [row_negative_zero]) = Some ?written"
    by (simp only: JSON_parse_serialized)
  moreover have "map_of row_negative_zero (ascii ''cost'') = Some (JNum negative_zero)"
    by (simp add: row_negative_zero_def ascii_keys)
  ultimately show ?thesis by (simp add: negative_zero_def)
qed



end
